theory Spec2Isabelle
  imports Main
begin

section \<open>Strings and JSON values\<close>

text \<open>
  A JavaScript string is a sequence of UTF-16 code units; the model keeps them as natural
  numbers, so that the Chinese literals of the source and the white space of
  \<^verbatim>\<open>trim\<close> and \<^verbatim>\<open>\s\<close> are what they are in the program.
  \<open>str\<close> embeds an ASCII literal.
\<close>

type_synonym jstring = "nat list"

definition str :: "string \<Rightarrow> jstring" where
  "str s = map of_char s"

text \<open>
  A parsed JSON value. A number is kept as its canonical decimal text (what
  \<^verbatim>\<open>Number.prototype.toString\<close> prints), an object as its properties in the
  order in which JavaScript lists them. \<^verbatim>\<open>JSON.parse\<close> and \<^verbatim>\<open>JSON.stringify\<close> belong to the
  runtime, not to the repository: the functions that call them take them as parameters,
  \<open>parse\<close> returning \<open>None\<close> where \<^verbatim>\<open>JSON.parse\<close> throws a SyntaxError.
\<close>

datatype json =
    JNull
  | JBool bool
  | JNum jstring
  | JStr jstring
  | JArr "json list"
  | JObj "(jstring \<times> json) list"

type_synonym json_parse = "jstring \<Rightarrow> json option"

text \<open>Errors that travel as JavaScript exceptions.\<close>

datatype err =
    External jstring   \<comment> \<open>thrown by fetch, by a vendor SDK or by the wire, with its message\<close>
  | ApiError nat       \<comment> \<open>the status of a response that is not ok\<close>
  | NoBody             \<comment> \<open>a response without a body stream\<close>
  | SyntaxError        \<comment> \<open>\<^verbatim>\<open>JSON.parse\<close> outside a try block\<close>

section \<open>BaseAIProvider.retry\<close>

text \<open>
  \<^verbatim>\<open>
  for (let i = 0; i < maxRetries; i++) {
    try { return await fn(); }
    catch (error) {
      lastError = error;
      if (i < maxRetries - 1) await this.delay(delayMs * (i + 1));
    }
  }
  throw lastError;
  \<close>
  \<open>fn i\<close> is the outcome of the call of \<^verbatim>\<open>fn\<close> made in iteration \<open>i\<close>. The result
  carries the outcome (\<open>Inl None\<close> is \<^verbatim>\<open>throw undefined\<close>, reached with
  \<^verbatim>\<open>maxRetries = 0\<close>), the number of calls of \<^verbatim>\<open>fn\<close> and the delays awaited, in
  order.
\<close>

record ('e, 'a) retried =
  outcome :: "'e option + 'a"
  calls :: nat
  delays :: "nat list"

function retry_loop ::
  "(nat \<Rightarrow> 'e + 'a) \<Rightarrow> nat \<Rightarrow> nat \<Rightarrow> nat \<Rightarrow> 'e option \<Rightarrow> nat list \<Rightarrow> ('e, 'a) retried" where
  "retry_loop fn maxRetries delayMs i lastError ds =
     (if i < maxRetries then
        (case fn i of
           Inr v \<Rightarrow> \<lparr>outcome = Inr v, calls = Suc i, delays = ds\<rparr>
         | Inl e \<Rightarrow>
             retry_loop fn maxRetries delayMs (Suc i) (Some e)
               (if i < maxRetries - 1 then ds @ [delayMs * (i + 1)] else ds))
      else \<lparr>outcome = Inl lastError, calls = i, delays = ds\<rparr>)"
  by pat_completeness auto
termination
  by (relation "measure (\<lambda>(fn, maxRetries, delayMs, i, lastError, ds). maxRetries - i)") auto

declare retry_loop.simps [simp del]

definition retry :: "(nat \<Rightarrow> 'e + 'a) \<Rightarrow> nat \<Rightarrow> nat \<Rightarrow> ('e, 'a) retried" where
  "retry fn maxRetries delayMs = retry_loop fn maxRetries delayMs 0 None []"

text \<open>
  Every adapter's \<^verbatim>\<open>chat\<close> is \<^verbatim>\<open>return this.retry(async () => { ... })\<close>, with the
  default \<^verbatim>\<open>maxRetries = 3\<close> and \<^verbatim>\<open>delayMs = 1000\<close>; \<open>request i\<close> is the outcome
  of the \<open>i\<close>-th run of the closure (the vendor call, the status check and
  \<^verbatim>\<open>parseResponse\<close>).
\<close>

definition provider_chat :: "(nat \<Rightarrow> err + 'r) \<Rightarrow> (err, 'r) retried" where
  "provider_chat request = retry request 3 1000"

section \<open>Canonical types\<close>

text \<open>\<^verbatim>\<open>ToolCall\<close> and \<^verbatim>\<open>AIStreamChunk\<close> of the type definitions.\<close>

record tool_call =
  call_id :: jstring
  name :: jstring
  arguments :: json

record chunk =
  content :: "jstring option"
  toolCall :: "tool_call option"
  isComplete :: bool

definition text_chunk :: "jstring \<Rightarrow> chunk" where
  "text_chunk s = \<lparr>content = Some s, toolCall = None, isComplete = False\<rparr>"

definition call_chunk :: "tool_call \<Rightarrow> bool \<Rightarrow> chunk" where
  "call_chunk c fin = \<lparr>content = None, toolCall = Some c, isComplete = fin\<rparr>"

definition final_chunk :: chunk where
  "final_chunk = \<lparr>content = None, toolCall = None, isComplete = True\<rparr>"

text \<open>
  An async iterator, drained: the items it yields and how it ends then (it returns, it
  throws, or it never yields again). The same shape serves for the vendor's wire stream
  and for the generator an adapter's \<^verbatim>\<open>stream\<close> returns.
\<close>

datatype ending = Returned | Threw err | Stalled

type_synonym 'w source = "'w list \<times> ending"

type_synonym gen = "chunk source"

definition emit :: "chunk list \<Rightarrow> gen \<Rightarrow> gen" where
  "emit ys g = (ys @ fst g, snd g)"

text \<open>The tool call an adapter is assembling: id, name and the argument text so far.\<close>

record raw_call =
  rc_id :: jstring
  rc_name :: jstring
  rc_arguments :: jstring

text \<open>\<^verbatim>\<open>x || ''\<close> on an optional string, and the truthiness of one.\<close>

definition or_empty :: "jstring option \<Rightarrow> jstring" where
  "or_empty x = (case x of None \<Rightarrow> [] | Some s \<Rightarrow> s)"

definition truthy :: "jstring option \<Rightarrow> bool" where
  "truthy x = (case x of None \<Rightarrow> False | Some s \<Rightarrow> s \<noteq> [])"

text \<open>\<^verbatim>\<open>JSON.parse(currentToolCall.arguments || '{}')\<close>, shared by the adapters.\<close>

definition parse_arguments :: "json_parse \<Rightarrow> raw_call \<Rightarrow> json option" where
  "parse_arguments parse rc =
     parse (if rc_arguments rc = [] then str ''{}'' else rc_arguments rc)"

definition finished_call :: "raw_call \<Rightarrow> json \<Rightarrow> tool_call" where
  "finished_call rc a = \<lparr>call_id = rc_id rc, name = rc_name rc, arguments = a\<rparr>"

section \<open>DeepSeekProvider.stream\<close>

text \<open>
  A chunk of the vendor stream, read the way the loop reads it:
  \<^verbatim>\<open>chunk.choices[0]?.delta\<close>, its \<^verbatim>\<open>content\<close> and \<^verbatim>\<open>tool_calls\<close>, and
  \<^verbatim>\<open>chunk.choices[0]?.finish_reason\<close>. In a tool delta, \<open>td_name\<close> and
  \<open>td_arguments\<close> are \<^verbatim>\<open>function?.name\<close> and \<^verbatim>\<open>function?.arguments\<close>.
\<close>

record tool_delta =
  td_id :: "jstring option"
  td_name :: "jstring option"
  td_arguments :: "jstring option"

record ds_delta =
  d_content :: "jstring option"
  d_tool_calls :: "tool_delta list option"

record ds_chunk =
  delta :: "ds_delta option"
  finish_reason :: "jstring option"

fun ds_tool_deltas :: "raw_call option \<Rightarrow> tool_delta list \<Rightarrow> raw_call option" where
  "ds_tool_deltas cur [] = cur"
| "ds_tool_deltas cur (t # ts) =
     ds_tool_deltas
       (if truthy (td_id t) then
          Some \<lparr>rc_id = or_empty (td_id t), rc_name = or_empty (td_name t),
                rc_arguments = or_empty (td_arguments t)\<rparr>
        else if truthy (td_arguments t) then
          (case cur of
             None \<Rightarrow> None
           | Some rc \<Rightarrow> Some (rc\<lparr>rc_arguments := rc_arguments rc @ or_empty (td_arguments t)\<rparr>))
        else cur)
       ts"

fun deepseek_chunks :: "json_parse \<Rightarrow> raw_call option \<Rightarrow> ds_chunk list \<Rightarrow> ending \<Rightarrow> gen" where
  "deepseek_chunks parse cur [] e = ([], e)"
| "deepseek_chunks parse cur (c # cs) e =
     (case delta c of
        None \<Rightarrow> deepseek_chunks parse cur cs e
      | Some d \<Rightarrow>
          (let ys = (if truthy (d_content d) then [text_chunk (or_empty (d_content d))] else []);
               cur' = (case d_tool_calls d of None \<Rightarrow> cur | Some ts \<Rightarrow> ds_tool_deltas cur ts)
           in if truthy (finish_reason c) then
                (case cur' of
                   None \<Rightarrow> emit (ys @ [final_chunk]) (deepseek_chunks parse cur' cs e)
                 | Some rc \<Rightarrow>
                     (case parse_arguments parse rc of
                        None \<Rightarrow> (ys, Threw SyntaxError)
                      | Some a \<Rightarrow>
                          emit (ys @ [call_chunk (finished_call rc a) True])
                            (deepseek_chunks parse cur' cs e)))
              else emit ys (deepseek_chunks parse cur' cs e)))"

text \<open>
  \<^verbatim>\<open>await this.client.chat.completions.create({..., stream: true})\<close> either rejects or
  gives the stream; the call is made once.
\<close>

definition deepseek_stream :: "json_parse \<Rightarrow> err + ds_chunk source \<Rightarrow> gen" where
  "deepseek_stream parse up =
     (case up of Inl x \<Rightarrow> ([], Threw x) | Inr (cs, e) \<Rightarrow> deepseek_chunks parse None cs e)"

section \<open>ClaudeProvider.stream\<close>

datatype claude_delta =
    TextDelta "jstring option"   \<comment> \<open>type \<^verbatim>\<open>text_delta\<close> or \<^verbatim>\<open>text\<close>, with \<^verbatim>\<open>delta.text\<close>\<close>
  | InputJsonDelta jstring       \<comment> \<open>type \<^verbatim>\<open>input_json_delta\<close>, with \<^verbatim>\<open>partial_json\<close>\<close>
  | OtherDelta

datatype claude_event =
    ContentBlockDelta claude_delta
  | ToolUseStart jstring jstring  \<comment> \<open>\<^verbatim>\<open>content_block_start\<close> of a \<^verbatim>\<open>tool_use\<close> block: id, name\<close>
  | MessageStop
  | OtherEvent

fun claude_events :: "json_parse \<Rightarrow> raw_call option \<Rightarrow> claude_event list \<Rightarrow> ending \<Rightarrow> gen" where
  "claude_events parse cur [] e = ([], e)"
| "claude_events parse cur (ContentBlockDelta (TextDelta t) # cs) e =
     emit [text_chunk (or_empty t)] (claude_events parse cur cs e)"
| "claude_events parse cur (ContentBlockDelta (InputJsonDelta p) # cs) e =
     claude_events parse
       (case cur of None \<Rightarrow> None | Some rc \<Rightarrow> Some (rc\<lparr>rc_arguments := rc_arguments rc @ p\<rparr>))
       cs e"
| "claude_events parse cur (ContentBlockDelta OtherDelta # cs) e = claude_events parse cur cs e"
| "claude_events parse cur (ToolUseStart i n # cs) e =
     claude_events parse (Some \<lparr>rc_id = i, rc_name = n, rc_arguments = []\<rparr>) cs e"
| "claude_events parse cur (MessageStop # cs) e =
     (case cur of
        None \<Rightarrow> emit [final_chunk] (claude_events parse cur cs e)
      | Some rc \<Rightarrow>
          (case parse_arguments parse rc of
             None \<Rightarrow> ([], Threw SyntaxError)
           | Some a \<Rightarrow>
               emit [call_chunk (finished_call rc a) True] (claude_events parse cur cs e)))"
| "claude_events parse cur (OtherEvent # cs) e = claude_events parse cur cs e"

definition claude_stream :: "json_parse \<Rightarrow> err + claude_event source \<Rightarrow> gen" where
  "claude_stream parse up =
     (case up of Inl x \<Rightarrow> ([], Threw x) | Inr (cs, e) \<Rightarrow> claude_events parse None cs e)"

section \<open>OllamaProvider.stream\<close>

text \<open>
  The outcome of \<^verbatim>\<open>fetch\<close>: it rejects, or there is a response with its \<^verbatim>\<open>ok\<close>
  flag, its status and, when the body can be read, the lines of the body. The adapters
  split the body at newlines and never look at what is left in the buffer when the body
  ends, so the model starts from the complete lines.
\<close>

datatype 'w http = FetchFailed err | Response bool nat "'w source option"

text \<open>
  A line as the loop reads it: blank after \<^verbatim>\<open>trim\<close>; or \<^verbatim>\<open>JSON.parse\<close> (or a
  property read on its result) throws inside the try block; or an object with
  \<^verbatim>\<open>data.message?.content\<close> (a string when present) and the truthiness of
  \<^verbatim>\<open>data.done\<close>.
\<close>

datatype ollama_line = OBlank | OUnparsable | OData "jstring option" bool

fun ollama_lines :: "ollama_line list \<Rightarrow> ending \<Rightarrow> gen" where
  "ollama_lines [] Returned = ([final_chunk], Returned)"
| "ollama_lines [] e = ([], e)"
| "ollama_lines (OData c done # ls) e =
     emit ((if truthy c then [\<lparr>content = c, toolCall = None, isComplete = done\<rparr>] else [])
           @ (if done then [final_chunk] else []))
       (ollama_lines ls e)"
| "ollama_lines (l # ls) e = ollama_lines ls e"

definition ollama_stream :: "ollama_line http \<Rightarrow> gen" where
  "ollama_stream r =
     (case r of
        FetchFailed x \<Rightarrow> ([], Threw x)
      | Response ok status body \<Rightarrow>
          if \<not> ok then ([], Threw (ApiError status))
          else (case body of None \<Rightarrow> ([], Threw NoBody) | Some (ls, e) \<Rightarrow> ollama_lines ls e))"

section \<open>Text patterns\<close>

text \<open>
  The white space of \<^verbatim>\<open>String.prototype.trim\<close> and of \<^verbatim>\<open>\s\<close>: the WhiteSpace
  and LineTerminator code units of ECMAScript.
\<close>

definition is_space :: "nat \<Rightarrow> bool" where
  "is_space u =
     (u \<in> {9, 10, 11, 12, 13, 32, 160, 5760, 8232, 8233, 8239, 8287, 12288, 65279}
      \<or> (8192 \<le> u \<and> u \<le> 8202))"

definition trim :: "jstring \<Rightarrow> jstring" where
  "trim s = rev (dropWhile is_space (rev (dropWhile is_space s)))"

definition skip_ws :: "jstring \<Rightarrow> jstring" where
  "skip_ws s = dropWhile is_space s"

definition starts_with :: "jstring \<Rightarrow> jstring \<Rightarrow> bool" where
  "starts_with pat s = (take (length pat) s = pat)"

text \<open>A literal of a pattern: the rest of the text after it, when the text starts with it.\<close>

definition expect :: "jstring \<Rightarrow> jstring \<Rightarrow> jstring option" where
  "expect pat s = (if starts_with pat s then Some (drop (length pat) s) else None)"

text \<open>
  The lazy \<^verbatim>\<open>(.*?)\<close> (with the \<^verbatim>\<open>s\<close> flag) in front of a literal, with nothing
  after the literal: the text before the first occurrence of the literal, and the rest
  after it.
\<close>

fun split_first :: "jstring \<Rightarrow> jstring \<Rightarrow> (jstring \<times> jstring) option" where
  "split_first pat [] = (if pat = [] then Some ([], []) else None)"
| "split_first pat (c # cs) =
     (if starts_with pat (c # cs) then Some ([], drop (length pat) (c # cs))
      else (case split_first pat cs of None \<Rightarrow> None | Some (b, a) \<Rightarrow> Some (c # b, a)))"

definition tc_open :: jstring where
  "tc_open = str ''<minimax:tool_call>''"

definition tc_close :: jstring where
  "tc_close = str ''</minimax:tool_call>''"

lemma split_first_shorter: "split_first pat s = Some (b, a) \<Longrightarrow> length a \<le> length s"
proof (induction s arbitrary: b)
  case Nil
  then show ?case by (simp split: if_splits)
next
  case (Cons c cs)
  then show ?case by (fastforce split: if_splits option.splits)
qed

text \<open>
  \<^verbatim>\<open>.replace(/<minimax:tool_call>.*?<\/minimax:tool_call>/gs, '')\<close>: every leftmost
  opening tag that has a closing tag after it goes, with everything up to the first such
  closing tag; an opening tag with no closing tag after it stays, with the rest of the
  text.
\<close>

function strip_tool_calls :: "jstring \<Rightarrow> jstring" where
  "strip_tool_calls [] = []"
| "strip_tool_calls (c # cs) =
     (if starts_with tc_open (c # cs) then
        (case split_first tc_close (drop (length tc_open) (c # cs)) of
           None \<Rightarrow> c # cs
         | Some (b, rest) \<Rightarrow> strip_tool_calls rest)
      else c # strip_tool_calls cs)"
  by pat_completeness auto
termination
proof (relation "measure length")
  show "wf (measure length)" by simp
next
  fix c cs x2 b rest
  assume "starts_with tc_open (c # cs)"
    and "split_first tc_close (drop (length tc_open) (c # cs)) = Some x2"
    and "(b, rest) = x2"
  then have "length rest \<le> length (drop (length tc_open) (c # cs))"
    using split_first_shorter by metis
  moreover have "length tc_open = 19" by (simp add: tc_open_def str_def)
  ultimately show "(rest, c # cs) \<in> measure length" by simp
next
  fix c :: nat and cs :: jstring
  show "(cs, c # cs) \<in> measure length" by simp
qed

text \<open>\<^verbatim>\<open>.replace(...).trim()\<close>, the clean content of a turn.\<close>

definition clean_content :: "jstring \<Rightarrow> jstring" where
  "clean_content s = trim (strip_tool_calls s)"

section \<open>MiniMaxProvider.stream\<close>

subsection \<open>The inline invocations of the accumulated text\<close>

definition inv_open :: jstring where
  "inv_open = str ''<invoke name='' @ [34]"

definition inv_close :: jstring where
  "inv_close = str ''</invoke>''"

definition par_open :: jstring where
  "par_open = str ''<parameters>''"

definition par_close :: jstring where
  "par_close = str ''</parameters>''"

text \<open>
  The pattern of \<^verbatim>\<open>fullTextContent.matchAll\<close>, flags \<^verbatim>\<open>gs\<close>:
  \<^verbatim>\<open><minimax:tool_call>\s*<invoke name="([^"]+)">\s*(?:<parameters>(.*?)<\/parameters>)?\s*<\/invoke>\s*<\/minimax:tool_call>\<close>.
  Each \<^verbatim>\<open>\s*\<close> stands before a literal that begins with \<^verbatim>\<open><\<close>, and
  \<^verbatim>\<open>[^"]+\<close> before a double quote, so the greedy choice is the only one that can
  match. \<open>tail_match\<close> is the pattern after the optional group.
\<close>

definition tail_match :: "jstring \<Rightarrow> jstring option" where
  "tail_match s =
     (case expect inv_close (skip_ws s) of
        None \<Rightarrow> None
      | Some r \<Rightarrow> expect tc_close (skip_ws r))"

text \<open>
  The lazy \<^verbatim>\<open>(.*?)<\/parameters>\<close> followed by the rest of the pattern: the first
  closing tag after which the rest matches.
\<close>

fun lazy_parameters :: "jstring \<Rightarrow> (jstring \<times> jstring) option" where
  "lazy_parameters [] = None"
| "lazy_parameters (c # cs) =
     (case (if starts_with par_close (c # cs)
            then tail_match (drop (length par_close) (c # cs)) else None) of
        Some rest \<Rightarrow> Some ([], rest)
      | None \<Rightarrow>
          (case lazy_parameters cs of None \<Rightarrow> None | Some (b, rest) \<Rightarrow> Some (c # b, rest)))"

text \<open>
  A match that starts at the head of the text: the name, the second capture group
  (\<open>None\<close> when the optional group took no part) and the text after the match.
\<close>

definition invoke_at :: "jstring \<Rightarrow> (jstring \<times> jstring option \<times> jstring) option" where
  "invoke_at s =
     (case expect tc_open s of
        None \<Rightarrow> None
      | Some s1 \<Rightarrow>
          (case expect inv_open (skip_ws s1) of
             None \<Rightarrow> None
           | Some s2 \<Rightarrow>
               (let nm = takeWhile (\<lambda>u. u \<noteq> 34) s2; s3 = dropWhile (\<lambda>u. u \<noteq> 34) s2
                in if nm = [] then None
                   else (case expect [34, 62] s3 of
                           None \<Rightarrow> None
                         | Some s4 \<Rightarrow>
                             (let s5 = skip_ws s4
                              in case (case expect par_open s5 of
                                         None \<Rightarrow> None
                                       | Some s6 \<Rightarrow> lazy_parameters s6) of
                                   Some (p, rest) \<Rightarrow> Some (nm, Some p, rest)
                                 | None \<Rightarrow>
                                     (case tail_match s5 of
                                        None \<Rightarrow> None
                                      | Some rest \<Rightarrow> Some (nm, None, rest)))))))"

lemma expect_length: "expect pat s = Some r \<Longrightarrow> length r + length pat = length s"
proof -
  assume a: "expect pat s = Some r"
  then have t: "take (length pat) s = pat" and r: "r = drop (length pat) s"
    by (auto simp: expect_def starts_with_def split: if_splits)
  from t have "length (take (length pat) s) = length pat" by simp
  then have "length pat \<le> length s" by simp
  with r show ?thesis by simp
qed

lemma skip_ws_length: "length (skip_ws s) \<le> length s"
  by (simp add: skip_ws_def length_dropWhile_le)

lemma tail_match_length: "tail_match s = Some r \<Longrightarrow> length r \<le> length s"
proof -
  assume a: "tail_match s = Some r"
  then obtain q where q: "expect inv_close (skip_ws s) = Some q"
    and r: "expect tc_close (skip_ws q) = Some r"
    by (auto simp: tail_match_def split: option.splits)
  have "length r \<le> length (skip_ws q)" using expect_length [OF r] by simp
  also have "\<dots> \<le> length q" by (rule skip_ws_length)
  also have "\<dots> \<le> length (skip_ws s)" using expect_length [OF q] by simp
  also have "\<dots> \<le> length s" by (rule skip_ws_length)
  finally show ?thesis .
qed

lemma lazy_parameters_length: "lazy_parameters s = Some (b, r) \<Longrightarrow> length r \<le> length s"
proof (induction s arbitrary: b)
  case Nil
  then show ?case by simp
next
  case (Cons c cs)
  show ?case
  proof (cases "if starts_with par_close (c # cs)
                then tail_match (drop (length par_close) (c # cs)) else None")
    case None
    with Cons.prems obtain b' where "lazy_parameters cs = Some (b', r)"
      by (auto split: option.splits)
    then have "length r \<le> length cs" by (rule Cons.IH)
    then show ?thesis by simp
  next
    case (Some rest)
    with Cons.prems have "rest = r" by simp
    with Some have "tail_match (drop (length par_close) (c # cs)) = Some r"
      by (simp split: if_splits)
    then have "length r \<le> length (drop (length par_close) (c # cs))"
      by (rule tail_match_length)
    then show ?thesis by simp
  qed
qed

lemma invoke_at_length:
  assumes "invoke_at s = Some (nm, p, r)"
  shows "length r < length s"
proof -
  from assms obtain s1 s2 s4 where s1: "expect tc_open s = Some s1"
    and s2: "expect inv_open (skip_ws s1) = Some s2"
    and s4: "expect [34, 62] (dropWhile (\<lambda>u. u \<noteq> 34) s2) = Some s4"
    and r: "(\<exists>s6 b. expect par_open (skip_ws s4) = Some s6 \<and> lazy_parameters s6 = Some (b, r))
            \<or> tail_match (skip_ws s4) = Some r"
    by (auto simp: invoke_at_def Let_def split: option.splits if_splits)
  have "length tc_open = 19" by (simp add: tc_open_def str_def)
  with expect_length [OF s1] have l1: "length s1 < length s" by simp
  have l2: "length s2 \<le> length s1"
    using expect_length [OF s2] skip_ws_length [of s1] by simp
  have l4: "length s4 \<le> length s2"
    using expect_length [OF s4] length_dropWhile_le [of "\<lambda>u. u \<noteq> 34" s2] by simp
  have l5: "length r \<le> length (skip_ws s4)"
  proof -
    from r show ?thesis
    proof
      assume "\<exists>s6 b. expect par_open (skip_ws s4) = Some s6 \<and> lazy_parameters s6 = Some (b, r)"
      then obtain s6 b where e: "expect par_open (skip_ws s4) = Some s6"
        and l: "lazy_parameters s6 = Some (b, r)" by blast
      from lazy_parameters_length [OF l] expect_length [OF e] show ?thesis by simp
    next
      assume "tail_match (skip_ws s4) = Some r"
      then show ?thesis by (rule tail_match_length)
    qed
  qed
  from l1 l2 l4 l5 skip_ws_length [of s4] show ?thesis by simp
qed

text \<open>\<^verbatim>\<open>matchAll\<close>: the matches from left to right, each search starting where the last match ended.\<close>

function inline_calls :: "jstring \<Rightarrow> (jstring \<times> jstring option) list" where
  "inline_calls [] = []"
| "inline_calls (c # cs) =
     (case invoke_at (c # cs) of
        None \<Rightarrow> inline_calls cs
      | Some (nm, p, rest) \<Rightarrow> (nm, p) # inline_calls rest)"
  by pat_completeness auto
termination
proof (relation "measure length")
  show "wf (measure length)" by simp
next
  fix c :: nat and cs :: jstring
  show "(cs, c # cs) \<in> measure length" by simp
next
  fix c :: nat and cs :: jstring and x2 nm y p rest
  assume "invoke_at (c # cs) = Some x2" and "(nm, y) = x2" and "(p, rest) = y"
  then have "invoke_at (c # cs) = Some (nm, p, rest)" by simp
  then have "length rest < length (c # cs)" by (rule invoke_at_length)
  then show "(rest, c # cs) \<in> measure length" by simp
qed

subsection \<open>The parameters of an inline invocation\<close>

text \<open>\<^verbatim>\<open>\w\<close> without the unicode flag.\<close>

definition is_word :: "nat \<Rightarrow> bool" where
  "is_word u = ((48 \<le> u \<and> u \<le> 57) \<or> (65 \<le> u \<and> u \<le> 90) \<or> u = 95 \<or> (97 \<le> u \<and> u \<le> 122))"

text \<open>
  \<^verbatim>\<open>/<(\w+)>(.*?)<\/\1>/gs\<close> at the head of the text: the key, the value and the text
  after the match.
\<close>

definition param_at :: "jstring \<Rightarrow> (jstring \<times> jstring \<times> jstring) option" where
  "param_at s =
     (case s of
        [] \<Rightarrow> None
      | c # s1 \<Rightarrow>
          if c \<noteq> 60 then None
          else (let k = takeWhile is_word s1; s2 = dropWhile is_word s1
                in if k = [] then None
                   else (case s2 of
                           [] \<Rightarrow> None
                         | d # s3 \<Rightarrow>
                             if d \<noteq> 62 then None
                             else (case split_first ([60, 47] @ k @ [62]) s3 of
                                     None \<Rightarrow> None
                                   | Some (v, rest) \<Rightarrow> Some (k, v, rest)))))"

lemma param_at_length:
  assumes "param_at s = Some (k, v, r)"
  shows "length r < length s"
proof -
  from assms obtain c s1 d s3 where s: "s = c # s1"
    and s2: "dropWhile is_word s1 = d # s3"
    and sp: "split_first ([60, 47] @ takeWhile is_word s1 @ [62]) s3 = Some (v, r)"
    by (auto simp: param_at_def Let_def split: list.splits if_splits option.splits)
  have "length r \<le> length s3" using sp by (rule split_first_shorter)
  moreover have "length (d # s3) \<le> length s1"
    using length_dropWhile_le [of is_word s1] s2 by simp
  ultimately show ?thesis using s by simp
qed

function parameter_pairs :: "jstring \<Rightarrow> (jstring \<times> jstring) list" where
  "parameter_pairs [] = []"
| "parameter_pairs (c # cs) =
     (case param_at (c # cs) of
        None \<Rightarrow> parameter_pairs cs
      | Some (k, v, rest) \<Rightarrow> (k, v) # parameter_pairs rest)"
  by pat_completeness auto
termination
proof (relation "measure length")
  show "wf (measure length)" by simp
next
  fix c :: nat and cs :: jstring
  show "(cs, c # cs) \<in> measure length" by simp
next
  fix c :: nat and cs :: jstring and x2 k y v rest
  assume "param_at (c # cs) = Some x2" and "(k, y) = x2" and "(v, rest) = y"
  then have "param_at (c # cs) = Some (k, v, rest)" by simp
  then have "length rest < length (c # cs)" by (rule param_at_length)
  then show "(rest, c # cs) \<in> measure length" by simp
qed

text \<open>
  \<^verbatim>\<open>params[key] = value\<close> on an object kept as its properties in the order in which
  JavaScript lists them: the keys that are array indices (canonical decimal numerals up to
  \<open>2^32 - 2\<close>) in ascending numeric order, then the other keys in the order of their
  creation. A key that is there keeps its place and gets the new value; a new array index
  goes before the first key that is a larger index or no index; any other new key goes to
  the end. Assigning a string to \<^verbatim>\<open>__proto__\<close> leaves a plain object as it is.
\<close>

definition is_digit :: "nat \<Rightarrow> bool" where
  "is_digit u = (48 \<le> u \<and> u \<le> 57)"

definition decimal :: "jstring \<Rightarrow> nat" where
  "decimal k = foldl (\<lambda>n u. 10 * n + (u - 48)) 0 k"

definition is_array_index :: "jstring \<Rightarrow> bool" where
  "is_array_index k =
     (case k of
        [] \<Rightarrow> False
      | c # cs \<Rightarrow> list_all is_digit (c # cs) \<and> (c \<noteq> 48 \<or> cs = []) \<and> decimal k \<le> 4294967294)"

fun update_value :: "(jstring \<times> json) list \<Rightarrow> jstring \<Rightarrow> json \<Rightarrow> (jstring \<times> json) list" where
  "update_value [] k v = []"
| "update_value ((k', v') # ps) k v =
     (if k' = k then (k', v) # ps else (k', v') # update_value ps k v)"

fun insert_key :: "(jstring \<times> json) list \<Rightarrow> jstring \<Rightarrow> json \<Rightarrow> (jstring \<times> json) list" where
  "insert_key [] k v = [(k, v)]"
| "insert_key ((k', v') # ps) k v =
     (if is_array_index k \<and> (\<not> is_array_index k' \<or> decimal k < decimal k')
      then (k, v) # (k', v') # ps
      else (k', v') # insert_key ps k v)"

definition set_property :: "(jstring \<times> json) list \<Rightarrow> jstring \<Rightarrow> json \<Rightarrow> (jstring \<times> json) list" where
  "set_property ps k v =
     (if k \<in> set (map fst ps) then update_value ps k v else insert_key ps k v)"

definition assign :: "(jstring \<times> json) list \<Rightarrow> jstring \<times> jstring \<Rightarrow> (jstring \<times> json) list" where
  "assign ps kv =
     (if fst kv = str ''__proto__'' then ps else set_property ps (fst kv) (JStr (snd kv)))"

text \<open>
  \<^verbatim>\<open>const paramsXml = match[2] || ''; let params = {}; if (paramsXml) { ... }\<close>
\<close>

definition inline_arguments :: "jstring option \<Rightarrow> json" where
  "inline_arguments p =
     (if or_empty p = [] then JObj []
      else JObj (foldl assign [] (parameter_pairs (or_empty p))))"

subsection \<open>The event loop\<close>

text \<open>
  The sentinels \<^verbatim>\<open>'[' + U+601D U+8003 + ']'\<close> and \<^verbatim>\<open>'[/' + U+601D U+8003 + ']'\<close>
  that wrap thinking content.
\<close>

definition open_sentinel :: jstring where
  "open_sentinel = [91, 24605, 32771, 93]"

definition close_sentinel :: jstring where
  "close_sentinel = [91, 47, 24605, 32771, 93]"

text \<open>
  \<^verbatim>\<open>parsed.delta\<close> by its \<^verbatim>\<open>type\<close>, with the one field the loop reads for that type
  (the empty string when the field is missing: both are falsy).
\<close>

datatype mm_delta =
    Thinking_delta jstring
  | Text_delta jstring
  | Input_json_delta jstring
  | Other_delta

text \<open>
  A parsed event: its delta, the \<^verbatim>\<open>id\<close> and \<^verbatim>\<open>name\<close> of its
  \<^verbatim>\<open>content_block\<close> when that is a \<^verbatim>\<open>tool_use\<close> block, and whether its
  \<^verbatim>\<open>type\<close> is \<^verbatim>\<open>message_stop\<close>.
\<close>

record mm_event =
  ev_delta :: "mm_delta option"
  ev_tool_use :: "(jstring option \<times> jstring option) option"
  ev_message_stop :: bool

text \<open>
  A line of the body: blank after \<^verbatim>\<open>trim\<close>; not starting with \<^verbatim>\<open>data: \<close>;
  \<^verbatim>\<open>data: [DONE]\<close>; data on which \<^verbatim>\<open>JSON.parse\<close> (or a property read on its
  result) throws inside the try block; or an event.
\<close>

datatype sse_line = Blank | NotData | DoneMarker | BadJson | Event mm_event

text \<open>
  The variables of the loop. \<open>generated\<close> counts the ids made from
  \<^verbatim>\<open>Date.now()\<close> and \<^verbatim>\<open>Math.random()\<close> so far: the \<open>k\<close>-th one is \<open>ids k\<close>, for
  a sequence \<open>ids\<close> given by the environment.
\<close>

record mm_state =
  hasYieldThinking :: bool
  currentToolCall :: "raw_call option"
  fullTextContent :: jstring
  generated :: nat

definition mm_init :: mm_state where
  "mm_init = \<lparr>hasYieldThinking = False, currentToolCall = None, fullTextContent = [], generated = 0\<rparr>"

definition on_thinking :: "mm_state \<Rightarrow> mm_event \<Rightarrow> chunk list \<times> mm_state" where
  "on_thinking st ev =
     (case ev_delta ev of
        Some (Thinking_delta t) \<Rightarrow>
          if t \<noteq> [] then
            ((if hasYieldThinking st then [] else [text_chunk open_sentinel]) @ [text_chunk t],
             st\<lparr>hasYieldThinking := True\<rparr>)
          else ([], st)
      | _ \<Rightarrow> ([], st))"

definition on_text :: "mm_state \<Rightarrow> mm_event \<Rightarrow> chunk list \<times> mm_state" where
  "on_text st ev =
     (case ev_delta ev of
        Some (Text_delta t) \<Rightarrow>
          if t \<noteq> [] then
            ((if hasYieldThinking st then [text_chunk close_sentinel] else []) @ [text_chunk t],
             st\<lparr>fullTextContent := fullTextContent st @ t, hasYieldThinking := False\<rparr>)
          else ([], st)
      | _ \<Rightarrow> ([], st))"

definition on_tool_use :: "(nat \<Rightarrow> jstring) \<Rightarrow> mm_state \<Rightarrow> mm_event \<Rightarrow> mm_state" where
  "on_tool_use ids st ev =
     (case ev_tool_use ev of
        None \<Rightarrow> st
      | Some (i, n) \<Rightarrow>
          if truthy i then
            st\<lparr>currentToolCall :=
                 Some \<lparr>rc_id = or_empty i, rc_name = or_empty n, rc_arguments = []\<rparr>\<rparr>
          else
            st\<lparr>currentToolCall :=
                 Some \<lparr>rc_id = ids (generated st), rc_name = or_empty n, rc_arguments = []\<rparr>,
               generated := Suc (generated st)\<rparr>)"

definition on_input_json :: "mm_state \<Rightarrow> mm_event \<Rightarrow> mm_state" where
  "on_input_json st ev =
     (case ev_delta ev of
        Some (Input_json_delta p) \<Rightarrow>
          if p \<noteq> [] then
            (case currentToolCall st of
               None \<Rightarrow> st
             | Some rc \<Rightarrow> st\<lparr>currentToolCall := Some (rc\<lparr>rc_arguments := rc_arguments rc @ p\<rparr>)\<rparr>)
          else st
      | _ \<Rightarrow> st)"

text \<open>
  The inline calls of the text, each with a generated id, in the order of the matches.
\<close>

fun inline_tool_calls :: "(nat \<Rightarrow> jstring) \<Rightarrow> nat \<Rightarrow> (jstring \<times> jstring option) list \<Rightarrow> tool_call list" where
  "inline_tool_calls ids k [] = []"
| "inline_tool_calls ids k ((nm, p) # ms) =
     \<lparr>call_id = ids k, name = nm, arguments = inline_arguments p\<rparr> # inline_tool_calls ids (Suc k) ms"

text \<open>
  What \<^verbatim>\<open>message_stop\<close> yields before the generator returns: the closing sentinel when
  thinking is open, the inline calls of the text, the structured call when its argument
  text parses (the catch block only logs), and the final chunk.
\<close>

definition on_message_stop :: "json_parse \<Rightarrow> (nat \<Rightarrow> jstring) \<Rightarrow> mm_state \<Rightarrow> chunk list" where
  "on_message_stop parse ids st =
     (if hasYieldThinking st then [text_chunk close_sentinel] else [])
     @ map (\<lambda>c. call_chunk c False)
         (inline_tool_calls ids (generated st) (inline_calls (fullTextContent st)))
     @ (case currentToolCall st of
          None \<Rightarrow> []
        | Some rc \<Rightarrow>
            (case parse_arguments parse rc of
               None \<Rightarrow> []
             | Some a \<Rightarrow> [call_chunk (finished_call rc a) False]))
     @ [final_chunk]"

fun minimax_lines :: "json_parse \<Rightarrow> (nat \<Rightarrow> jstring) \<Rightarrow> mm_state \<Rightarrow> sse_line list \<Rightarrow> ending \<Rightarrow> gen" where
  "minimax_lines parse ids st [] Returned = ([final_chunk], Returned)"
| "minimax_lines parse ids st [] e = ([], e)"
| "minimax_lines parse ids st (DoneMarker # ls) e = ([final_chunk], Returned)"
| "minimax_lines parse ids st (Event ev # ls) e =
     (let (y1, st1) = on_thinking st ev;
          (y2, st2) = on_text st1 ev;
          st3 = on_tool_use ids st2 ev;
          st4 = on_input_json st3 ev
      in if ev_message_stop ev then (y1 @ y2 @ on_message_stop parse ids st4, Returned)
         else emit (y1 @ y2) (minimax_lines parse ids st4 ls e))"
| "minimax_lines parse ids st (l # ls) e = minimax_lines parse ids st ls e"

definition minimax_stream :: "json_parse \<Rightarrow> (nat \<Rightarrow> jstring) \<Rightarrow> sse_line http \<Rightarrow> gen" where
  "minimax_stream parse ids r =
     (case r of
        FetchFailed x \<Rightarrow> ([], Threw x)
      | Response ok status body \<Rightarrow>
          if \<not> ok then ([], Threw (ApiError status))
          else (case body of
                  None \<Rightarrow> ([], Threw NoBody)
                | Some (ls, e) \<Rightarrow> minimax_lines parse ids mm_init ls e))"

section \<open>ToolRegistry.execute and the TaskExecutor\<close>

record tool_result =
  success :: bool
  data :: "json option"
  error :: "jstring option"
  screenshot :: "jstring option"

text \<open>
  A registered tool, run on its parameters, returns a result or throws an error with a
  message (a tool that never returns is not modelled). Tools act on the machine, so what
  one does may depend on what ran before: a tool also gets the number of tool runs so far.
\<close>

datatype tool_outcome = Gives tool_result | Fails jstring

type_synonym registry = "jstring \<rightharpoonup> (nat \<Rightarrow> json \<Rightarrow> tool_outcome)"

definition failure :: "jstring \<Rightarrow> tool_result" where
  "failure msg = \<lparr>success = False, data = None, error = Some msg, screenshot = None\<rparr>"

text \<open>
  The two messages of \<^verbatim>\<open>ToolRegistry.execute\<close>: the tool does not exist
  (U+5DE5 U+5177 U+4E0D U+5B58 U+5728, a colon, a space, the name), and the tool threw
  (U+5DE5 U+5177 U+6267 U+884C U+5931 U+8D25, a colon, a space, the message).
\<close>

definition unknown_tool :: "jstring \<Rightarrow> jstring" where
  "unknown_tool nm = [24037, 20855, 19981, 23384, 22312, 58, 32] @ nm"

definition tool_threw :: "jstring \<Rightarrow> jstring" where
  "tool_threw msg = [24037, 20855, 25191, 34892, 22833, 36133, 58, 32] @ msg"

definition registry_execute :: "registry \<Rightarrow> nat \<Rightarrow> jstring \<Rightarrow> json \<Rightarrow> tool_result" where
  "registry_execute reg n nm ps =
     (case reg nm of
        None \<Rightarrow> failure (unknown_tool nm)
      | Some tool \<Rightarrow>
          (case tool n ps of Gives r \<Rightarrow> r | Fails msg \<Rightarrow> failure (tool_threw msg)))"

datatype task_status = Pending | Running | Completed | Failed | Cancelled

record task =
  task_id :: jstring
  task_type :: jstring
  params :: tool_call
  status :: task_status
  result :: "tool_result option"
  task_error :: "jstring option"
  createdAt :: nat
  updatedAt :: nat

section \<open>The chat service\<close>

datatype role = User | Assistant | System

record message =
  role :: role
  msg_content :: jstring
  timestamp :: "nat option"

record session =
  session_id :: jstring
  messages :: "message list"
  created :: nat
  updated :: nat

text \<open>
  What happens that an observer can see: the callbacks of the task executor (set by the
  server) and the callbacks passed to \<^verbatim>\<open>processMessageStream\<close>, each with its
  argument as it is at the call. The callbacks themselves are taken not to throw.
\<close>

datatype event =
    TaskUpdate task
  | ExecToolCall tool_call
  | ExecToolResult tool_result
  | OnChunk chunk
  | OnToolCall tool_call
  | OnToolResult "tool_result option"
  | OnComplete
  | OnError err

text \<open>
  What the code takes from outside: \<^verbatim>\<open>JSON.stringify\<close> on the arguments of a call
  and on a task's result (\<open>None\<close> is \<^verbatim>\<open>undefined\<close>) inside the template string; the
  clock \<^verbatim>\<open>Date.now()\<close>, held at one value during a call; the ids made from the clock
  and \<^verbatim>\<open>Math.random()\<close>, the \<open>k\<close>-th one being \<open>e_ids k\<close>; the tool registry; and
  \<^verbatim>\<open>aiService.stream\<close>, whose \<open>n\<close>-th call, on the messages and the
  \<^verbatim>\<open>useTools\<close> flag it is given, returns a generator.
\<close>

record env =
  e_stringify :: "json \<Rightarrow> jstring"
  e_show_result :: "tool_result option \<Rightarrow> jstring"
  e_now :: nat
  e_ids :: "nat \<Rightarrow> jstring"
  e_tools :: registry
  e_provider :: "nat \<Rightarrow> message list \<Rightarrow> bool \<Rightarrow> gen"

text \<open>
  What a call changes: the session map of the service, the events so far, the requests
  made to \<^verbatim>\<open>aiService.stream\<close>, the calls \<^verbatim>\<open>toolRegistry.execute\<close> has received,
  and the number of ids generated. (\<^verbatim>\<open>runningTasks\<close> holds a task only while its tool
  runs; it is the same before and after \<^verbatim>\<open>TaskExecutor.execute\<close> and is left out.)
\<close>

record run =
  sessions :: "jstring \<rightharpoonup> session"
  events :: "event list"
  requests :: "(message list \<times> bool) list"
  executed :: "(jstring \<times> json) list"
  made_ids :: nat

definition logged :: "event list \<Rightarrow> run \<Rightarrow> run" where
  "logged es st = st\<lparr>events := events st @ es\<rparr>"

subsection \<open>TaskExecutor\<close>

definition createTask :: "env \<Rightarrow> run \<Rightarrow> jstring \<Rightarrow> tool_call \<Rightarrow> task \<times> run" where
  "createTask env st ty ps =
     (\<lparr>task_id = e_ids env (made_ids st), task_type = ty, params = ps, status = Pending,
       result = None, task_error = None, createdAt = e_now env, updatedAt = e_now env\<rparr>,
      st\<lparr>made_ids := Suc (made_ids st)\<rparr>)"

definition executeToolCall :: "env \<Rightarrow> run \<Rightarrow> tool_call \<Rightarrow> tool_result \<times> run" where
  "executeToolCall env st tc =
     (let st1 = logged [ExecToolCall tc] st;
          r = registry_execute (e_tools env) (length (executed st1)) (name tc) (arguments tc);
          st2 = st1\<lparr>executed := executed st1 @ [(name tc, arguments tc)]\<rparr>
      in (r, logged [ExecToolResult r] st2))"

text \<open>
  \<^verbatim>\<open>TaskExecutor.execute\<close>. Its catch block is reached only when
  \<^verbatim>\<open>executeToolCall\<close> throws, which \<^verbatim>\<open>ToolRegistry.execute\<close> never does.
\<close>

definition task_execute :: "env \<Rightarrow> run \<Rightarrow> task \<Rightarrow> task \<times> run" where
  "task_execute env st t =
     (let t1 = t\<lparr>status := Running, updatedAt := e_now env\<rparr>;
          st1 = logged [TaskUpdate t1] st;
          (r, st2) = executeToolCall env st1 (params t1);
          t2 = t1\<lparr>result := Some r, status := (if success r then Completed else Failed),
                  updatedAt := e_now env\<rparr>
      in (t2, logged [TaskUpdate t2] st2))"


subsection \<open>Sessions\<close>

definition createSession :: "env \<Rightarrow> run \<Rightarrow> session \<times> run" where
  "createSession env st =
     (let s = \<lparr>session_id = e_ids env (made_ids st), messages = [],
                created = e_now env, updated = e_now env\<rparr>
      in (s, st\<lparr>sessions := (sessions st)(session_id s \<mapsto> s), made_ids := Suc (made_ids st)\<rparr>))"

definition addMessage :: "env \<Rightarrow> run \<Rightarrow> jstring \<Rightarrow> message \<Rightarrow> run" where
  "addMessage env st sid m =
     (case sessions st sid of
        None \<Rightarrow> st
      | Some s \<Rightarrow>
          st\<lparr>sessions := (sessions st)(sid \<mapsto>
               s\<lparr>messages := messages s @ [m\<lparr>timestamp := Some (e_now env)\<rparr>],
                 updated := e_now env\<rparr>)\<rparr>)"

text \<open>\<^verbatim>\<open>messages.slice(-limit)\<close> keeps the last \<open>limit\<close> messages.\<close>

definition getMessages :: "run \<Rightarrow> jstring \<Rightarrow> nat option \<Rightarrow> message list" where
  "getMessages st sid limit =
     (case sessions st sid of
        None \<Rightarrow> []
      | Some s \<Rightarrow>
          (case limit of
             None \<Rightarrow> messages s
           | Some l \<Rightarrow> if l > 0 then drop (length (messages s) - l) (messages s) else messages s))"

definition new_message :: "role \<Rightarrow> jstring \<Rightarrow> message" where
  "new_message r c = \<lparr>role = r, msg_content = c, timestamp = None\<rparr>"

subsection \<open>processMessageStream\<close>

text \<open>
  What a \<^verbatim>\<open>for await\<close> loop with \<^verbatim>\<open>if (chunk.isComplete) break\<close> pulls out of a
  generator: the chunks up to the first complete one, after which the generator is closed;
  without one, all of them, and the loop ends the way the generator does.
\<close>

fun pull :: "chunk list \<Rightarrow> ending \<Rightarrow> gen" where
  "pull [] e = ([], e)"
| "pull (c # cs) e = (if isComplete c then ([c], Returned) else emit [c] (pull cs e))"

definition contents :: "chunk list \<Rightarrow> jstring" where
  "contents cs = concat (map (\<lambda>c. if truthy (content c) then or_empty (content c) else []) cs)"

definition tool_calls :: "chunk list \<Rightarrow> tool_call list" where
  "tool_calls cs = concat (map (\<lambda>c. case toolCall c of None \<Rightarrow> [] | Some tc \<Rightarrow> [tc]) cs)"

text \<open>The callbacks of the follow-up loop: the text chunks, and the calls as they arrive.\<close>

definition follow_up_events :: "chunk \<Rightarrow> event list" where
  "follow_up_events c =
     (if truthy (content c) then [OnChunk c] else [])
     @ (case toolCall c of None \<Rightarrow> [] | Some tc \<Rightarrow> [OnToolCall tc])"

text \<open>
  The message that carries a tool result: U+5DE5 U+5177, a space, the name, a space,
  U+6267 U+884C U+7ED3 U+679C, a colon, a space, and the result as JSON.
\<close>

definition tool_result_message :: "env \<Rightarrow> tool_call \<Rightarrow> task \<Rightarrow> message" where
  "tool_result_message env tc t =
     new_message System
       ([24037, 20855, 32] @ name tc @ [32, 25191, 34892, 32467, 26524, 58, 32]
        @ e_show_result env (result t))"

text \<open>One tool call of a turn: the task, its execution, the callback, the message.\<close>

definition run_call :: "env \<Rightarrow> jstring \<Rightarrow> run \<Rightarrow> tool_call \<Rightarrow> run" where
  "run_call env sid st tc =
     (let (t, st1) = createTask env st (str ''tool_call'') tc;
          (t', st2) = task_execute env st1 t;
          st3 = logged [OnToolResult (result t')] st2
      in addMessage env st3 sid (tool_result_message env tc t'))"

text \<open>
  The calls of the first stream of a round (each announced by \<^verbatim>\<open>onToolCall\<close> before
  it runs), and the calls of the follow-up stream (announced while streaming).
\<close>

fun run_pending :: "env \<Rightarrow> jstring \<Rightarrow> run \<Rightarrow> tool_call list \<Rightarrow> run" where
  "run_pending env sid st [] = st"
| "run_pending env sid st (tc # tcs) =
     run_pending env sid (run_call env sid (logged [OnToolCall tc] st) tc) tcs"

fun run_new :: "env \<Rightarrow> jstring \<Rightarrow> run \<Rightarrow> tool_call list \<Rightarrow> run" where
  "run_new env sid st [] = st"
| "run_new env sid st (tc # tcs) = run_new env sid (run_call env sid st tc) tcs"

text \<open>
  A call of \<^verbatim>\<open>aiService.stream(this.getMessages(sessionId, 20), true)\<close> and the loop
  over it: the state with the request recorded, the chunks pulled and how the loop ended.
\<close>

definition request_turn :: "env \<Rightarrow> jstring \<Rightarrow> run \<Rightarrow> run \<times> gen" where
  "request_turn env sid st =
     (let msgs = getMessages st sid (Some 20);
          g = e_provider env (length (requests st)) msgs True
      in (st\<lparr>requests := requests st @ [(msgs, True)]\<rparr>, pull (fst g) (snd g)))"

text \<open>The two notices: the task is done; the maximum number of rounds has been reached.\<close>

definition done_notice :: jstring where
  "done_notice = [10, 10, 20219, 21153, 24050, 23436, 25104, 12290]"

definition truncation_notice :: jstring where
  "truncation_notice =
     [10, 10, 91, 24050, 36798, 21040, 26368, 22823, 22788, 29702, 36718, 25968, 65292,
      20219, 21153, 21487, 33021, 26410, 23436, 20840, 23436, 25104, 93]"

text \<open>
  The test of the duplicate guard, made when the follow-up turn has calls and no clean
  text: the last call of the round and the first new call have the same name and the
  same \<^verbatim>\<open>JSON.stringify\<close> of their arguments.
\<close>

definition same_call :: "env \<Rightarrow> tool_call \<Rightarrow> tool_call \<Rightarrow> bool" where
  "same_call env a b =
     (name a = name b \<and> e_stringify env (arguments a) = e_stringify env (arguments b))"

text \<open>How the body of the while loop is left.\<close>

datatype leave = Continue | Break | Abort ending

definition add_assistant :: "env \<Rightarrow> jstring \<Rightarrow> run \<Rightarrow> jstring \<Rightarrow> run" where
  "add_assistant env sid st clean =
     (if clean \<noteq> [] then addMessage env st sid (new_message Assistant clean) else st)"

text \<open>The second half of a round, after the calls of the first stream have run.\<close>

definition follow_up :: "env \<Rightarrow> jstring \<Rightarrow> run \<Rightarrow> tool_call list \<Rightarrow> leave \<times> run" where
  "follow_up env sid st pending =
     (let (st1, g) = request_turn env sid st;
          st2 = logged (concat (map follow_up_events (fst g))) st1
      in case snd g of
           Threw x \<Rightarrow> (Abort (Threw x), st2)
         | Stalled \<Rightarrow> (Abort Stalled, st2)
         | Returned \<Rightarrow>
             (let clean = clean_content (contents (fst g));
                  st3 = add_assistant env sid st2 clean
              in case tool_calls (fst g) of
                   [] \<Rightarrow> (Break, st3)
                 | n # ns \<Rightarrow>
                     if clean = [] \<and> same_call env (last pending) n
                     then (Break, logged [OnChunk (text_chunk done_notice)] st3)
                     else (Continue, run_new env sid st3 (n # ns))))"

definition one_round :: "env \<Rightarrow> jstring \<Rightarrow> run \<Rightarrow> leave \<times> run" where
  "one_round env sid st =
     (let (st1, g) = request_turn env sid st;
          st2 = logged (map OnChunk (fst g)) st1
      in case snd g of
           Threw x \<Rightarrow> (Abort (Threw x), st2)
         | Stalled \<Rightarrow> (Abort Stalled, st2)
         | Returned \<Rightarrow>
             (let st3 = add_assistant env sid st2 (clean_content (contents (fst g)))
              in case tool_calls (fst g) of
                   [] \<Rightarrow> (Break, st3)
                 | p # ps \<Rightarrow> follow_up env sid (run_pending env sid st3 (p # ps)) (p # ps)))"

definition maxRounds :: nat where
  "maxRounds = 5"

text \<open>
  \<^verbatim>\<open>while (currentRound < maxRounds) { currentRound++; ... }\<close>: the way the loop ended
  (\<open>Returned\<close> for a break or a false loop test), the value of \<^verbatim>\<open>currentRound\<close> then,
  and the state.
\<close>

function rounds :: "env \<Rightarrow> jstring \<Rightarrow> run \<Rightarrow> nat \<Rightarrow> ending \<times> nat \<times> run" where
  "rounds env sid st currentRound =
     (if currentRound < maxRounds then
        (case one_round env sid st of
           (Continue, st') \<Rightarrow> rounds env sid st' (Suc currentRound)
         | (Break, st') \<Rightarrow> (Returned, Suc currentRound, st')
         | (Abort x, st') \<Rightarrow> (x, Suc currentRound, st'))
      else (Returned, currentRound, st))"
  by pat_completeness auto
termination
  by (relation "measure (\<lambda>(env, sid, st, currentRound). maxRounds - currentRound)") auto

declare rounds.simps [simp del]

text \<open>
  The whole call: how it ended (\<open>Returned\<close>: \<^verbatim>\<open>onComplete\<close> was called; \<open>Threw\<close>:
  the catch block called \<^verbatim>\<open>onError\<close>; \<open>Stalled\<close>: a stream never yielded again and
  the call never returns), the last value of \<^verbatim>\<open>currentRound\<close>, and the state.
\<close>

record finished =
  ended :: ending
  currentRound :: nat
  final :: run

definition processMessageStream :: "env \<Rightarrow> run \<Rightarrow> jstring \<Rightarrow> jstring \<Rightarrow> finished" where
  "processMessageStream env st sid text =
     (let st1 = (case sessions st sid of None \<Rightarrow> snd (createSession env st) | Some s \<Rightarrow> st);
          st2 = addMessage env st1 sid (new_message User text);
          (e, r, st3) = rounds env sid st2 0
      in case e of
           Returned \<Rightarrow>
             \<lparr>ended = Returned, currentRound = r,
              final = logged ((if r \<ge> maxRounds then [OnChunk (text_chunk truncation_notice)] else [])
                           @ [OnComplete]) st3\<rparr>
         | Threw x \<Rightarrow> \<lparr>ended = Threw x, currentRound = r, final = logged [OnError x] st3\<rparr>
         | Stalled \<Rightarrow> \<lparr>ended = Stalled, currentRound = r, final = st3\<rparr>)"

section \<open>Vocabulary of the statements\<close>

text \<open>
  Definitions that the statements below use and the source does not have: what a call
  leaves in the record of the registry, the result and the stored message of a call, the
  chunks the loop pulls from a request, the shape of an inline invocation in a text, and
  the events of a turn of the MiniMax stream.
\<close>

text \<open>The entry a call leaves in the record of the registry.\<close>

definition ran :: "tool_call \<Rightarrow> jstring \<times> json" where
  "ran tc = (name tc, arguments tc)"

text \<open>The result of the tool run that a call gets in a given state.\<close>

definition outcome_of :: "env \<Rightarrow> run \<Rightarrow> tool_call \<Rightarrow> tool_result" where
  "outcome_of env st tc =
     registry_execute (e_tools env) (length (executed st)) (name tc) (arguments tc)"

text \<open>The message that \<^verbatim>\<open>processMessageStream\<close> stores for a call and its result.\<close>

definition stored_result :: "env \<Rightarrow> tool_call \<Rightarrow> tool_result \<Rightarrow> message" where
  "stored_result env tc r =
     \<lparr>role = System,
      msg_content = [24037, 20855, 32] @ name tc @ [32, 25191, 34892, 32467, 26524, 58, 32]
                    @ e_show_result env (Some r),
      timestamp = Some (e_now env)\<rparr>"

text \<open>The chunks the loop pulls from the \<open>n\<close>-th request when it is sent \<open>msgs\<close>.\<close>

definition pulled :: "env \<Rightarrow> nat \<Rightarrow> message list \<Rightarrow> gen" where
  "pulled env n msgs =
     pull (fst (e_provider env n msgs True)) (snd (e_provider env n msgs True))"

text \<open>Exactly one chunk of the sequence is complete, and it is the last one.\<close>

definition one_final :: "chunk list \<Rightarrow> bool" where
  "one_final cs = (length (filter isComplete cs) = 1 \<and> cs \<noteq> [] \<and> isComplete (last cs))"

text \<open>An event that is a message stop and nothing else.\<close>

definition stop_event :: mm_event where
  "stop_event = \<lparr>ev_delta = None, ev_tool_use = None, ev_message_stop = True\<rparr>"

text \<open>The number of places of a text at which a pattern occurs.\<close>

fun occurrences :: "jstring \<Rightarrow> jstring \<Rightarrow> nat" where
  "occurrences pat [] = (if pat = [] then 1 else 0)"
| "occurrences pat (c # cs) = (if starts_with pat (c # cs) then 1 else 0) + occurrences pat cs"

text \<open>
  An inline invocation as it stands in a text: the prose before it, the name, the text
  between the parameter tags when they are there, and the white space that the pattern
  allows after the opening tag, after the invoke tag, before the closing invoke tag and
  before the closing tag.
\<close>

record invocation =
  prose :: jstring
  inv_name :: jstring
  inv_parameters :: "jstring option"
  space1 :: jstring
  space2 :: jstring
  space3 :: jstring
  space4 :: jstring

definition invocation_text :: "invocation \<Rightarrow> jstring" where
  "invocation_text iv =
     prose iv @ tc_open @ space1 iv @ inv_open @ inv_name iv @ [34, 62] @ space2 iv
     @ (case inv_parameters iv of None \<Rightarrow> [] | Some b \<Rightarrow> par_open @ b @ par_close)
     @ space3 iv @ inv_close @ space4 iv @ tc_close"

text \<open>
  The prose has no \<^verbatim>\<open><\<close>, the name is not empty and has no double quote, the spaces
  are white space, and the closing parameter tag does not occur inside the parameters.
\<close>

definition well_formed :: "invocation \<Rightarrow> bool" where
  "well_formed iv =
     (60 \<notin> set (prose iv) \<and> inv_name iv \<noteq> [] \<and> 34 \<notin> set (inv_name iv)
      \<and> list_all is_space (space1 iv) \<and> list_all is_space (space2 iv)
      \<and> list_all is_space (space3 iv) \<and> list_all is_space (space4 iv)
      \<and> (case inv_parameters iv of
            None \<Rightarrow> True
          | Some b \<Rightarrow> occurrences par_close (b @ par_close) = 1))"

text \<open>The events of a turn: a text delta, the start of a tool-use block, a piece of its input.\<close>

definition text_event :: "jstring \<Rightarrow> mm_event" where
  "text_event t = \<lparr>ev_delta = Some (Text_delta t), ev_tool_use = None, ev_message_stop = False\<rparr>"

definition tool_use_event :: "jstring option \<Rightarrow> jstring option \<Rightarrow> mm_event" where
  "tool_use_event i n = \<lparr>ev_delta = None, ev_tool_use = Some (i, n), ev_message_stop = False\<rparr>"

definition json_event :: "jstring \<Rightarrow> mm_event" where
  "json_event j = \<lparr>ev_delta = Some (Input_json_delta j), ev_tool_use = None, ev_message_stop = False\<rparr>"

text \<open>
  A turn with text and one tool-use block: the text deltas, the start of the block, the
  pieces of its input, the message stop.
\<close>

definition hybrid_turn :: "jstring list \<Rightarrow> jstring option \<Rightarrow> jstring option \<Rightarrow> jstring list \<Rightarrow> sse_line list" where
  "hybrid_turn ts i n js =
     map (\<lambda>t. Event (text_event t)) ts @ [Event (tool_use_event i n)]
     @ map (\<lambda>j. Event (json_event j)) js @ [Event stop_event]"

section \<open>Sample environment\<close>

text \<open>
  The inputs of the examples. The environment: a printer of JSON values and one of
  results in the place of \<^verbatim>\<open>JSON.stringify\<close>, a clock that reads 1000, the ids
  \<open>#\<close>, \<open>##\<close>, ..., a registry, and a provider that answers its \<open>n\<close>-th request with
  \<open>turns n\<close>.
\<close>

fun join :: "jstring \<Rightarrow> jstring list \<Rightarrow> jstring" where
  "join sep [] = []"
| "join sep [x] = x"
| "join sep (x # y # ys) = x @ sep @ join sep (y # ys)"

fun json_text :: "json \<Rightarrow> jstring" where
  "json_text JNull = str ''null''"
| "json_text (JBool b) = (if b then str ''true'' else str ''false'')"
| "json_text (JNum t) = t"
| "json_text (JStr s) = [34] @ s @ [34]"
| "json_text (JArr xs) = [91] @ join [44] (map json_text xs) @ [93]"
| "json_text (JObj ps) =
     [123] @ join [44] (map (\<lambda>p. [34] @ fst p @ [34, 58] @ json_text (snd p)) ps) @ [125]"

definition result_text :: "tool_result option \<Rightarrow> jstring" where
  "result_text r =
     (case r of
        None \<Rightarrow> str ''undefined''
      | Some t \<Rightarrow>
          json_text (JObj ([(str ''success'', JBool (success t))]
            @ (case data t of None \<Rightarrow> [] | Some d \<Rightarrow> [(str ''data'', d)])
            @ (case error t of None \<Rightarrow> [] | Some m \<Rightarrow> [(str ''error'', JStr m)])
            @ (case screenshot t of None \<Rightarrow> [] | Some p \<Rightarrow> [(str ''screenshot'', JStr p)]))))"

definition sample_ids :: "nat \<Rightarrow> jstring" where
  "sample_ids k = replicate (Suc k) 35"

definition sample_env :: "registry \<Rightarrow> (nat \<Rightarrow> gen) \<Rightarrow> env" where
  "sample_env reg turns =
     \<lparr>e_stringify = json_text, e_show_result = result_text, e_now = 1000,
      e_ids = sample_ids, e_tools = reg,
      e_provider = (\<lambda>n msgs useTools. turns n)\<rparr>"

definition fresh_run :: run where
  "fresh_run = \<lparr>sessions = Map.empty, events = [], requests = [], executed = [], made_ids = 0\<rparr>"

definition ok_result :: tool_result where
  "ok_result = \<lparr>success = True, data = None, error = None, screenshot = None\<rparr>"

definition one_tool :: registry where
  "one_tool = [str ''screenshot'' \<mapsto> (\<lambda>n ps. Gives ok_result)]"

definition call_of :: "string \<Rightarrow> string \<Rightarrow> tool_call" where
  "call_of i n = \<lparr>call_id = str i, name = str n, arguments = JObj []\<rparr>"

definition known_run :: run where
  "known_run = fresh_run\<lparr>sessions := [str ''s1'' \<mapsto>
     \<lparr>session_id = str ''s1'', messages = [], created = 0, updated = 0\<rparr>]\<rparr>"

text \<open>
  \<^verbatim>\<open>JSON.parse\<close> for the examples, right on the two argument texts they use: the text
  of the empty object, and an opening brace alone, which is not JSON.
\<close>

definition sample_parse :: json_parse where
  "sample_parse s = (if s = str ''{}'' then Some (JObj []) else None)"

text \<open>The text of an inline invocation of \<^verbatim>\<open>screenshot\<close>, without parameters.\<close>

definition inline_screenshot :: jstring where
  "inline_screenshot = str ''<minimax:tool_call><invoke name='' @ [34] @ str ''screenshot''
     @ [34] @ str ''></invoke></minimax:tool_call>''"

definition thinking_event :: "jstring \<Rightarrow> mm_event" where
  "thinking_event t = \<lparr>ev_delta = Some (Thinking_delta t), ev_tool_use = None, ev_message_stop = False\<rparr>"

definition two_tools :: registry where
  "two_tools = [str ''screenshot'' \<mapsto> (\<lambda>n ps. Gives ok_result),
                str ''click'' \<mapsto> (\<lambda>n ps. Gives ok_result)]"


text \<open>
  Turns that always call \<^verbatim>\<open>click\<close>: the even ones with the call alone, the odd ones
  with a text before it.
\<close>

definition alternating_turns :: "nat \<Rightarrow> gen" where
  "alternating_turns n =
     (if even n then ([call_chunk (call_of ''b'' ''click'') False, final_chunk], Returned)
      else ([text_chunk (str ''x''), call_chunk (call_of ''b'' ''click'') False, final_chunk],
            Returned))"

text \<open>
  The text of a turn in two deltas: prose, an inline invocation of \<^verbatim>\<open>read_file\<close>
  with four parameters, prose, an inline invocation of \<^verbatim>\<open>screenshot\<close> without
  parameters, prose.
\<close>

definition two_invocations :: "jstring list" where
  "two_invocations =
     [str ''Reading. <minimax:tool_call>'' @ [10] @ str ''<invoke name='' @ [34]
        @ str ''read_file'' @ [34] @ str ''>'' @ [10]
        @ str ''<parameters><path>a.txt</path><2>x</2>'',
      str ''<10>z</10><1>y</1></parameters>'' @ [10] @ str ''</invoke>'' @ [10]
        @ str ''</minimax:tool_call> Then <minimax:tool_call><invoke name='' @ [34]
        @ str ''screenshot'' @ [34] @ str ''></invoke></minimax:tool_call> ok'']"


text \<open>Turns that all have a text and a call of \<^verbatim>\<open>screenshot\<close>.\<close>

definition calling_turns :: "nat \<Rightarrow> gen" where
  "calling_turns n =
     ([text_chunk (str ''x''), call_chunk (call_of ''a'' ''screenshot'') False, final_chunk],
      Returned)"

section \<open>Retry on chat, none on stream\<close>

lemma retry_loop_fail:
  "i < m \<Longrightarrow> (\<forall>j. i \<le> j \<and> j < m \<longrightarrow> fn j = Inl (errs j)) \<Longrightarrow>
   retry_loop fn m d i le ds =
     \<lparr>outcome = Inl (Some (errs (m - 1))), calls = m, delays = ds @ map (\<lambda>j. d * Suc j) [i..<m - 1]\<rparr>"
proof (induction "m - i" arbitrary: i le ds)
  case 0
  then show ?case by simp
next
  case (Suc n)
  have fi: "fn i = Inl (errs i)" using Suc.prems by simp
  show ?case
  proof (cases "Suc i < m")
    case True
    have "retry_loop fn m d (Suc i) (Some (errs i)) (ds @ [d * (i + 1)]) =
      \<lparr>outcome = Inl (Some (errs (m - 1))), calls = m,
       delays = (ds @ [d * (i + 1)]) @ map (\<lambda>j. d * Suc j) [Suc i..<m - 1]\<rparr>"
      using Suc.hyps(2) Suc.prems True by (intro Suc.hyps(1)) auto
    moreover have "[i..<m - 1] = i # [Suc i..<m - 1]"
      using True by (simp add: upt_conv_Cons)
    ultimately show ?thesis using True fi Suc.prems(1)
      by (subst retry_loop.simps) simp
  next
    case False
    then have m: "m = Suc i" using Suc.prems(1) by simp
    show ?thesis using fi
      by (subst retry_loop.simps, subst retry_loop.simps) (simp add: m)
  qed
qed

lemma retry_loop_success:
  "i \<le> k \<Longrightarrow> k < m \<Longrightarrow> (\<forall>j. i \<le> j \<and> j < k \<longrightarrow> fn j = Inl (errs j)) \<Longrightarrow> fn k = Inr v \<Longrightarrow>
   retry_loop fn m d i le ds =
     \<lparr>outcome = Inr v, calls = Suc k, delays = ds @ map (\<lambda>j. d * Suc j) [i..<k]\<rparr>"
proof (induction "k - i" arbitrary: i le ds)
  case 0
  then have "i = k" by simp
  then show ?case using 0 by (subst retry_loop.simps) simp
next
  case (Suc n)
  then have ik: "i < k" by simp
  have fi: "fn i = Inl (errs i)" using Suc.prems ik by simp
  have "retry_loop fn m d (Suc i) (Some (errs i)) (ds @ [d * (i + 1)]) =
      \<lparr>outcome = Inr v, calls = Suc k,
       delays = (ds @ [d * (i + 1)]) @ map (\<lambda>j. d * Suc j) [Suc i..<k]\<rparr>"
    using Suc.hyps(2) Suc.prems ik by (intro Suc.hyps(1)) auto
  moreover have "[i..<k] = i # [Suc i..<k]"
    using ik by (simp add: upt_conv_Cons)
  ultimately show ?case using fi ik Suc.prems(2)
    by (subst retry_loop.simps) simp
qed

lemma ollama_lines_failure: "snd (ollama_lines ls (Threw x)) = Threw x"
  by (induction ls "Threw x" rule: ollama_lines.induct) (simp_all add: emit_def)

lemma deepseek_chunks_failure: "\<exists>y. snd (deepseek_chunks parse cur cs (Threw x)) = Threw y"
  by (induction cs arbitrary: cur)
    (auto simp: emit_def Let_def split: option.splits)

lemma claude_events_failure: "\<exists>y. snd (claude_events parse cur cs (Threw x)) = Threw y"
  by (induction parse cur cs "Threw x" rule: claude_events.induct)
    (auto simp: emit_def split: option.splits)

lemma minimax_lines_failure:
  "snd (minimax_lines parse ids st ls (Threw x)) = Threw x
   \<or> snd (minimax_lines parse ids st ls (Threw x)) = Returned"
  by (induction parse ids st ls "Threw x" rule: minimax_lines.induct)
    (auto simp: emit_def Let_def split: prod.splits)

text \<open>
  C7. A chat request is the closure run under \<^verbatim>\<open>retry\<close> with its defaults: when
  every run throws, there are three runs, with delays of 1000 and 2000 ms between them
  (\<^verbatim>\<open>delayMs\<close> times the number of the failed attempt), and the error of the third
  run is thrown; when run \<open>k\<close> is the first to return, there are \<open>k + 1\<close> runs and the
  result is returned. A stream request is made once: when it is refused, the generator
  throws that error without yielding, and when the wire fails while streaming, the
  generator throws (for MiniMax unless it had returned before at a message stop or a
  DONE line).
\<close>

theorem chat_is_retried_stream_is_not:
  fixes request :: "nat \<Rightarrow> err + 'r"
  shows "((\<forall>i<3. request i = Inl (errs i)) \<longrightarrow>
            provider_chat request
              = \<lparr>outcome = Inl (Some (errs 2)), calls = 3, delays = [1000, 2000]\<rparr>)
       \<and> (k < 3 \<and> (\<forall>i<k. request i = Inl (errs i)) \<and> request k = Inr v \<longrightarrow>
            provider_chat request
              = \<lparr>outcome = Inr v, calls = Suc k, delays = map (\<lambda>i. 1000 * Suc i) [0..<k]\<rparr>)
       \<and> deepseek_stream parse (Inl x) = ([], Threw x)
       \<and> claude_stream parse (Inl x) = ([], Threw x)
       \<and> ollama_stream (FetchFailed x) = ([], Threw x)
       \<and> ollama_stream (Response False code ob) = ([], Threw (ApiError code))
       \<and> minimax_stream parse ids (FetchFailed x) = ([], Threw x)
       \<and> minimax_stream parse ids (Response False code mb) = ([], Threw (ApiError code))
       \<and> (\<exists>y. snd (deepseek_stream parse (Inr (ds, Threw x))) = Threw y)
       \<and> (\<exists>y. snd (claude_stream parse (Inr (cs, Threw x))) = Threw y)
       \<and> snd (ollama_stream (Response True code (Some (ols, Threw x)))) = Threw x
       \<and> snd (minimax_stream parse ids (Response True code (Some (mls, Threw x))))
            \<in> {Threw x, Returned}"
proof -
  have a: "(\<forall>i<3. request i = Inl (errs i)) \<longrightarrow>
            provider_chat request
              = \<lparr>outcome = Inl (Some (errs 2)), calls = 3, delays = [1000, 2000]\<rparr>"
  proof
    assume h: "\<forall>i<3. request i = Inl (errs i)"
    have "retry_loop request 3 1000 0 None []
      = \<lparr>outcome = Inl (Some (errs (3 - 1))), calls = 3,
         delays = [] @ map (\<lambda>j. 1000 * Suc j) [0..<3 - 1]\<rparr>"
      using h by (intro retry_loop_fail) auto
    moreover have "[0..<2] = [0, Suc 0]" by (simp add: upt_rec)
    ultimately show "provider_chat request
              = \<lparr>outcome = Inl (Some (errs 2)), calls = 3, delays = [1000, 2000]\<rparr>"
      by (simp add: provider_chat_def retry_def)
  qed
  have b: "k < 3 \<and> (\<forall>i<k. request i = Inl (errs i)) \<and> request k = Inr v \<longrightarrow>
            provider_chat request
              = \<lparr>outcome = Inr v, calls = Suc k, delays = map (\<lambda>i. 1000 * Suc i) [0..<k]\<rparr>"
  proof
    assume h: "k < 3 \<and> (\<forall>i<k. request i = Inl (errs i)) \<and> request k = Inr v"
    have "retry_loop request 3 1000 0 None []
      = \<lparr>outcome = Inr v, calls = Suc k, delays = [] @ map (\<lambda>j. 1000 * Suc j) [0..<k]\<rparr>"
      using h by (intro retry_loop_success) auto
    then show "provider_chat request
              = \<lparr>outcome = Inr v, calls = Suc k, delays = map (\<lambda>i. 1000 * Suc i) [0..<k]\<rparr>"
      by (simp add: provider_chat_def retry_def)
  qed
  have c: "\<exists>y. snd (deepseek_stream parse (Inr (ds, Threw x))) = Threw y"
    using deepseek_chunks_failure by (simp add: deepseek_stream_def)
  have d: "\<exists>y. snd (claude_stream parse (Inr (cs, Threw x))) = Threw y"
    using claude_events_failure by (simp add: claude_stream_def)
  have e: "snd (ollama_stream (Response True code (Some (ols, Threw x)))) = Threw x"
    by (simp add: ollama_stream_def ollama_lines_failure)
  have f: "snd (minimax_stream parse ids (Response True code (Some (mls, Threw x))))
            \<in> {Threw x, Returned}"
    using minimax_lines_failure [of parse ids mm_init mls x] by (auto simp: minimax_stream_def)
  show ?thesis
    using a b c d e f
    by (simp add: deepseek_stream_def claude_stream_def ollama_stream_def minimax_stream_def)
qed

theorem chat_is_retried_stream_is_not_witness:
  "provider_chat (\<lambda>i. Inl (ApiError (500 + i)) :: err + unit)
     = \<lparr>outcome = Inl (Some (ApiError 502)), calls = 3, delays = [1000, 2000]\<rparr>
   \<and> provider_chat (\<lambda>i. if i < 2 then Inl (ApiError (500 + i)) else Inr ())
     = \<lparr>outcome = Inr (), calls = 3, delays = [1000, 2000]\<rparr>"
proof -
  have "[0..<2] = [0, Suc 0]" by (simp add: upt_rec)
  then show ?thesis
  using chat_is_retried_stream_is_not
    [where request = "\<lambda>i. Inl (ApiError (500 + i)) :: err + unit"
       and errs = "\<lambda>i. ApiError (500 + i)"]
    chat_is_retried_stream_is_not
    [where request = "\<lambda>i. if i < 2 then Inl (ApiError (500 + i)) else Inr ()"
       and errs = "\<lambda>i. ApiError (500 + i)" and k = 2 and v = "()"]
  by simp
qed

section \<open>What the operations of a round change\<close>

lemma addMessage_fields [simp]:
  "events (addMessage env st sid m) = events st"
  "requests (addMessage env st sid m) = requests st"
  "executed (addMessage env st sid m) = executed st"
  "made_ids (addMessage env st sid m) = made_ids st"
  by (simp_all add: addMessage_def split: option.splits)

lemma addMessage_unknown: "sessions st sid = None \<Longrightarrow> addMessage env st sid m = st"
  by (simp add: addMessage_def)

lemma logged_fields [simp]:
  "sessions (logged es st) = sessions st"
  "events (logged es st) = events st @ es"
  "requests (logged es st) = requests st"
  "executed (logged es st) = executed st"
  "made_ids (logged es st) = made_ids st"
  by (simp_all add: logged_def)


lemma task_execute_fields [simp]:
  "sessions (snd (task_execute env st t)) = sessions st"
  "requests (snd (task_execute env st t)) = requests st"
  "executed (snd (task_execute env st t)) = executed st @ [ran (params t)]"
  "made_ids (snd (task_execute env st t)) = made_ids st"
  "result (fst (task_execute env st t))
     = Some (registry_execute (e_tools env) (length (executed st)) (name (params t)) (arguments (params t)))"
  "status (fst (task_execute env st t))
     = (if success (registry_execute (e_tools env) (length (executed st)) (name (params t)) (arguments (params t)))
        then Completed else Failed)"
  by (simp_all add: task_execute_def Let_def split: prod.splits)
    (simp_all add: executeToolCall_def Let_def ran_def)

lemma createTask_fields [simp]:
  "sessions (snd (createTask env st ty ps)) = sessions st"
  "requests (snd (createTask env st ty ps)) = requests st"
  "executed (snd (createTask env st ty ps)) = executed st"
  "made_ids (snd (createTask env st ty ps)) = Suc (made_ids st)"
  "params (fst (createTask env st ty ps)) = ps"
  by (simp_all add: createTask_def)

lemma run_call_fields [simp]:
  "requests (run_call env sid st tc) = requests st"
  "executed (run_call env sid st tc) = executed st @ [ran tc]"
  "made_ids (run_call env sid st tc) = Suc (made_ids st)"
  by (simp_all add: run_call_def Let_def split: prod.splits)
    (metis createTask_fields task_execute_fields snd_conv fst_conv)+

lemma run_call_sessions:
  "sessions (run_call env sid st tc) =
     (case sessions st sid of
        None \<Rightarrow> sessions st
      | Some s \<Rightarrow> (sessions st)(sid \<mapsto>
          s\<lparr>messages := messages s @ [stored_result env tc (outcome_of env st tc)],
            updated := e_now env\<rparr>))"
proof -
  obtain t st1 where c: "createTask env st (str ''tool_call'') tc = (t, st1)"
    by (cases "createTask env st (str ''tool_call'') tc")
  obtain t' st2 where e: "task_execute env st1 t = (t', st2)"
    by (cases "task_execute env st1 t")
  have p: "params t = tc" and x: "executed st1 = executed st" and s1: "sessions st1 = sessions st"
    using createTask_fields [of env st "str ''tool_call''" tc] c by simp_all
  have r: "result t' = Some (outcome_of env st tc)"
    using task_execute_fields(5) [of env st1 t] e p x by (simp add: outcome_of_def)
  have s2: "sessions st2 = sessions st"
    using task_execute_fields(1) [of env st1 t] e s1 by simp
  show ?thesis
    using c e r s2
    by (simp add: run_call_def addMessage_def tool_result_message_def new_message_def
        stored_result_def split: option.splits)
qed

lemma run_call_events: "\<exists>es. events (run_call env sid st tc) = events st @ es"
  by (simp add: run_call_def Let_def createTask_def task_execute_def executeToolCall_def
      logged_def split: prod.splits)

lemma run_pending_fields [simp]:
  "requests (run_pending env sid st tcs) = requests st"
  "executed (run_pending env sid st tcs) = executed st @ map ran tcs"
  "made_ids (run_pending env sid st tcs) = made_ids st + length tcs"
  by (induction tcs arbitrary: st) simp_all

lemma run_new_fields [simp]:
  "requests (run_new env sid st tcs) = requests st"
  "executed (run_new env sid st tcs) = executed st @ map ran tcs"
  "made_ids (run_new env sid st tcs) = made_ids st + length tcs"
  by (induction tcs arbitrary: st) simp_all


lemma add_assistant_fields [simp]:
  "events (add_assistant env sid st c) = events st"
  "requests (add_assistant env sid st c) = requests st"
  "executed (add_assistant env sid st c) = executed st"
  "made_ids (add_assistant env sid st c) = made_ids st"
  by (simp_all add: add_assistant_def)

lemma request_turn_fields [simp]:
  "sessions (fst (request_turn env sid st)) = sessions st"
  "events (fst (request_turn env sid st)) = events st"
  "executed (fst (request_turn env sid st)) = executed st"
  "made_ids (fst (request_turn env sid st)) = made_ids st"
  "requests (fst (request_turn env sid st)) = requests st @ [(getMessages st sid (Some 20), True)]"
  "snd (request_turn env sid st)
     = pull (fst (e_provider env (length (requests st)) (getMessages st sid (Some 20)) True))
            (snd (e_provider env (length (requests st)) (getMessages st sid (Some 20)) True))"
  by (simp_all add: request_turn_def Let_def)

lemma follow_up_requests:
  "requests (snd (follow_up env sid st pending))
     = requests st @ [(getMessages st sid (Some 20), True)]"
proof -
  obtain st1 g where r: "request_turn env sid st = (st1, g)"
    by (cases "request_turn env sid st")
  have "requests st1 = requests st @ [(getMessages st sid (Some 20), True)]"
    using request_turn_fields(5) [of env sid st] r by simp
  then show ?thesis
    using r by (simp add: follow_up_def Let_def split: ending.splits list.splits)
qed

lemma getMessages_unknown: "sessions st sid = None \<Longrightarrow> getMessages st sid limit = []"
  by (simp add: getMessages_def)

lemma add_assistant_unknown: "sessions st sid = None \<Longrightarrow> add_assistant env sid st c = st"
  by (simp add: add_assistant_def addMessage_unknown)

lemma run_call_unknown:
  "sessions st sid = None \<Longrightarrow> sessions (run_call env sid st tc) = sessions st"
  by (simp add: run_call_sessions)

lemma run_pending_unknown:
  "sessions st sid = None \<Longrightarrow> sessions (run_pending env sid st tcs) = sessions st"
  by (induction tcs arbitrary: st) (simp_all add: run_call_unknown)

lemma run_new_unknown:
  "sessions st sid = None \<Longrightarrow> sessions (run_new env sid st tcs) = sessions st"
  by (induction tcs arbitrary: st) (simp_all add: run_call_unknown)

lemma follow_up_unknown:
  assumes "sessions st sid = None"
  shows "sessions (snd (follow_up env sid st pending)) = sessions st"
    and "requests (snd (follow_up env sid st pending)) = requests st @ [([], True)]"
proof -
  obtain st1 g where r: "request_turn env sid st = (st1, g)"
    by (cases "request_turn env sid st")
  have s1: "sessions st1 = sessions st"
    using request_turn_fields(1) [of env sid st] r by simp
  define st2 where "st2 = logged (concat (map follow_up_events (fst g))) st1"
  have s2: "sessions st2 sid = None" "sessions st2 = sessions st"
    using s1 assms by (simp_all add: st2_def)
  have a: "add_assistant env sid st2 c = st2" for c
    using s2 by (simp add: add_assistant_unknown)
  have f: "follow_up env sid st pending =
    (case snd g of
       Threw x \<Rightarrow> (Abort (Threw x), st2)
     | Stalled \<Rightarrow> (Abort Stalled, st2)
     | Returned \<Rightarrow>
         (case tool_calls (fst g) of
            [] \<Rightarrow> (Break, st2)
          | n # ns \<Rightarrow>
              if clean_content (contents (fst g)) = [] \<and> same_call env (last pending) n
              then (Break, logged [OnChunk (text_chunk done_notice)] st2)
              else (Continue, run_new env sid st2 (n # ns))))"
    using r a by (simp add: follow_up_def Let_def st2_def [symmetric]
        split: ending.splits list.splits)
  show "sessions (snd (follow_up env sid st pending)) = sessions st"
  proof (cases "snd g")
    case Returned
    show ?thesis
    proof (cases "tool_calls (fst g)")
      case Nil
      then show ?thesis using f Returned s2 by simp
    next
      case (Cons n ns)
      have "sessions (run_new env sid st2 (n # ns)) = sessions st2"
        by (rule run_new_unknown [OF s2(1)])
      then show ?thesis using f Returned Cons s2 by (simp del: run_new.simps)
    qed
  next
    case (Threw x)
    then show ?thesis using f s2 by simp
  next
    case Stalled
    then show ?thesis using f s2 by simp
  qed
  show "requests (snd (follow_up env sid st pending)) = requests st @ [([], True)]"
    using follow_up_requests [of env sid st pending] assms by (simp add: getMessages_unknown)
qed

lemma one_round_unknown:
  assumes "sessions st sid = None"
  shows "sessions (snd (one_round env sid st)) = sessions st"
    and "\<exists>k. requests (snd (one_round env sid st)) = requests st @ replicate k ([], True)"
proof -
  obtain st1 g where r: "request_turn env sid st = (st1, g)"
    by (cases "request_turn env sid st")
  have s1: "sessions st1 = sessions st"
    using request_turn_fields(1) [of env sid st] r by simp
  have q1: "requests st1 = requests st @ [([], True)]"
    using request_turn_fields(5) [of env sid st] r assms by (simp add: getMessages_unknown)
  define st2 where "st2 = logged (map OnChunk (fst g)) st1"
  have s2: "sessions st2 sid = None" "sessions st2 = sessions st" "requests st2 = requests st @ [([], True)]"
    using s1 q1 assms by (simp_all add: st2_def)
  have a: "add_assistant env sid st2 c = st2" for c
    using s2 by (simp add: add_assistant_unknown)
  define st4 where "st4 = run_pending env sid st2 (tool_calls (fst g))"
  have s4: "sessions st4 sid = None" "sessions st4 = sessions st" "requests st4 = requests st @ [([], True)]"
    using s2 by (simp_all add: st4_def run_pending_unknown)
  have o: "one_round env sid st =
    (case snd g of
       Threw x \<Rightarrow> (Abort (Threw x), st2)
     | Stalled \<Rightarrow> (Abort Stalled, st2)
     | Returned \<Rightarrow> (if tool_calls (fst g) = [] then (Break, st2)
                     else follow_up env sid st4 (tool_calls (fst g))))"
    using r a by (simp add: one_round_def Let_def st2_def [symmetric] st4_def
        split: ending.splits list.splits)
  show "sessions (snd (one_round env sid st)) = sessions st"
    using o s2 s4 follow_up_unknown(1) [of st4 sid env]
    by (simp split: ending.splits)
  have one: "requests st @ [([], True)] = requests st @ replicate (Suc 0) ([], True)"
    by simp
  have two: "requests st @ [([], True), ([], True)] = requests st @ replicate (Suc (Suc 0)) ([], True)"
    by simp
  show "\<exists>k. requests (snd (one_round env sid st)) = requests st @ replicate k ([], True)"
  proof (cases "snd g = Returned \<and> tool_calls (fst g) \<noteq> []")
    case True
    then have "one_round env sid st = follow_up env sid st4 (tool_calls (fst g))"
      using o by simp
    then have "requests (snd (one_round env sid st)) = requests st @ [([], True), ([], True)]"
      using follow_up_unknown(2) [OF s4(1), of env] s4(3) by simp
    then show ?thesis using two by metis
  next
    case False
    then have "snd (one_round env sid st) = st2"
      using o by (cases "snd g") auto
    then have "requests (snd (one_round env sid st)) = requests st @ [([], True)]"
      using s2 by simp
    then show ?thesis using one by metis
  qed
qed

lemma rounds_unknown:
  "sessions st sid = None \<Longrightarrow>
   sessions (snd (snd (rounds env sid st r))) = sessions st
   \<and> (\<exists>k. requests (snd (snd (rounds env sid st r))) = requests st @ replicate k ([], True))"
proof (induction env sid st r rule: rounds.induct)
  case (1 env sid st r)
  show ?case
  proof (cases "r < maxRounds")
    case False
    then have "rounds env sid st r = (Returned, r, st)" by (simp add: rounds.simps)
    then show ?thesis by simp
  next
    case True
    obtain lv st' where o: "one_round env sid st = (lv, st')"
      by (cases "one_round env sid st")
    have s': "sessions st' = sessions st"
      using one_round_unknown(1) [OF "1.prems", of env] o by simp
    obtain k where k: "requests st' = requests st @ replicate k ([], True)"
      using one_round_unknown(2) [OF "1.prems", of env] o by auto
    show ?thesis
    proof (cases lv)
      case Continue
      have n: "sessions st' sid = None" using s' "1.prems" by simp
      have e: "rounds env sid st r = rounds env sid st' (Suc r)"
        using True o Continue by (simp add: rounds.simps [of env sid st r])
      from "1.IH" [OF True o [symmetric] Continue n] obtain j where
        "sessions (snd (snd (rounds env sid st' (Suc r)))) = sessions st'"
        "requests (snd (snd (rounds env sid st' (Suc r)))) = requests st' @ replicate j ([], True)"
        by auto
      then have "sessions (snd (snd (rounds env sid st r))) = sessions st"
        and "requests (snd (snd (rounds env sid st r))) = requests st @ replicate (k + j) ([], True)"
        using e s' k by (simp_all add: replicate_add)
      then show ?thesis by blast
    next
      case Break
      then have "rounds env sid st r = (Returned, Suc r, st')"
        using True o by (simp add: rounds.simps [of env sid st r])
      then show ?thesis using s' k by auto
    next
      case (Abort x)
      then have "rounds env sid st r = (x, Suc r, st')"
        using True o by (simp add: rounds.simps [of env sid st r])
      then show ?thesis using s' k by auto
    qed
  qed
qed

section \<open>Unknown sessions\<close>

text \<open>
  C10. \<^verbatim>\<open>addMessage\<close> on a session id that is not in the map changes nothing. When
  \<^verbatim>\<open>processMessageStream\<close> is called with such an id and the id of the session it
  creates is another one, the call leaves the map as it was but for that new, empty
  session; \<^verbatim>\<open>getMessages\<close> of the id given is empty afterwards, and every request
  the call made to the provider carried an empty history.
\<close>

theorem unknown_session_stores_nothing:
  assumes "sessions st sid = None" and "e_ids env (made_ids st) \<noteq> sid"
  shows "addMessage env st sid m = st
       \<and> sessions (final (processMessageStream env st sid text))
           = (sessions st)(e_ids env (made_ids st) \<mapsto>
               \<lparr>session_id = e_ids env (made_ids st), messages = [],
                created = e_now env, updated = e_now env\<rparr>)
       \<and> getMessages (final (processMessageStream env st sid text)) sid limit = []
       \<and> (\<exists>k. requests (final (processMessageStream env st sid text))
                 = requests st @ replicate k ([], True))"
proof -
  define st1 where "st1 = snd (createSession env st)"
  have s1: "sessions st1 = (sessions st)(e_ids env (made_ids st) \<mapsto>
               \<lparr>session_id = e_ids env (made_ids st), messages = [],
                created = e_now env, updated = e_now env\<rparr>)"
    and q1: "requests st1 = requests st"
    by (simp_all add: st1_def createSession_def Let_def)
  have n1: "sessions st1 sid = None" using s1 assms by simp
  have a1: "addMessage env st1 sid (new_message User text) = st1"
    using n1 by (rule addMessage_unknown)
  obtain e r st3 where l: "rounds env sid st1 0 = (e, r, st3)"
    by (cases "rounds env sid st1 0")
  from rounds_unknown [OF n1, of env 0] l obtain k
    where s3: "sessions st3 = sessions st1"
      and q3: "requests st3 = requests st1 @ replicate k ([], True)" by auto
  have p: "processMessageStream env st sid text =
    (case e of
       Returned \<Rightarrow>
         \<lparr>ended = Returned, currentRound = r,
          final = logged ((if r \<ge> maxRounds then [OnChunk (text_chunk truncation_notice)] else [])
                       @ [OnComplete]) st3\<rparr>
     | Threw x \<Rightarrow> \<lparr>ended = Threw x, currentRound = r, final = logged [OnError x] st3\<rparr>
     | Stalled \<Rightarrow> \<lparr>ended = Stalled, currentRound = r, final = st3\<rparr>)"
    using assms(1) a1 l by (simp add: processMessageStream_def st1_def [symmetric])
  have fs: "sessions (final (processMessageStream env st sid text)) = sessions st1"
    and fq: "requests (final (processMessageStream env st sid text))
               = requests st @ replicate k ([], True)"
    using p s3 q3 q1 by (cases e; simp)+
  have "getMessages (final (processMessageStream env st sid text)) sid limit = []"
    using fs n1 by (simp add: getMessages_unknown)
  moreover have "\<exists>k. requests (final (processMessageStream env st sid text))
                 = requests st @ replicate k ([], True)"
    using fq by (rule exI)
  ultimately show ?thesis
    using fs s1 addMessage_unknown [OF assms(1)] by simp
qed

theorem unknown_session_stores_nothing_witness:
  "sessions (final (processMessageStream
       (sample_env one_tool (\<lambda>n. ([text_chunk (str ''hi''), final_chunk], Returned)))
       fresh_run (str ''s1'') (str ''hello'')))
     = [[35] \<mapsto> \<lparr>session_id = [35], messages = [], created = 1000, updated = 1000\<rparr>]
   \<and> getMessages (final (processMessageStream
       (sample_env one_tool (\<lambda>n. ([text_chunk (str ''hi''), final_chunk], Returned)))
       fresh_run (str ''s1'') (str ''hello''))) (str ''s1'') None = []"
  using unknown_session_stores_nothing
    [of fresh_run "str ''s1''"
        "sample_env one_tool (\<lambda>n. ([text_chunk (str ''hi''), final_chunk], Returned))"
        "new_message User (str ''hello'')" "str ''hello''" None]
  by (simp add: fresh_run_def sample_env_def sample_ids_def str_def)

section \<open>The two batch paths\<close>




section \<open>The calls of a round in a known session\<close>

lemma one_round_eq:
  "one_round env sid st =
     (let g = snd (request_turn env sid st);
          st2 = logged (map OnChunk (fst g)) (fst (request_turn env sid st))
      in case snd g of
           Threw x \<Rightarrow> (Abort (Threw x), st2)
         | Stalled \<Rightarrow> (Abort Stalled, st2)
         | Returned \<Rightarrow>
             (let st3 = add_assistant env sid st2 (clean_content (contents (fst g)))
              in if tool_calls (fst g) = [] then (Break, st3)
                 else follow_up env sid (run_pending env sid st3 (tool_calls (fst g)))
                        (tool_calls (fst g))))"
proof -
  obtain st1 cs e where r: "request_turn env sid st = (st1, cs, e)"
    by (cases "request_turn env sid st") auto
  show ?thesis
    by (cases e; cases "tool_calls cs")
      (simp_all add: one_round_def r Let_def del: request_turn_fields)
qed






lemma last_getMessages:
  "sessions st sid = Some s \<Longrightarrow> messages s = ms @ [m] \<Longrightarrow>
   getMessages st sid (Some 20) \<noteq> [] \<and> last (getMessages st sid (Some 20)) = m"
  by (simp add: getMessages_def)

section \<open>The events of the calls of a turn\<close>

lemma request_turn_pulled:
  "snd (request_turn env sid st) = pulled env (length (requests st)) (getMessages st sid (Some 20))"
  by (simp add: pulled_def)

lemma run_pending_events: "\<exists>es. events (run_pending env sid st tcs) = events st @ es"
proof (induction tcs arbitrary: st)
  case Nil
  show ?case by simp
next
  case (Cons tc tcs)
  obtain es1 where e1: "events (run_call env sid (logged [OnToolCall tc] st) tc)
                          = events (logged [OnToolCall tc] st) @ es1"
    using run_call_events by blast
  obtain es2 where "events (run_pending env sid (run_call env sid (logged [OnToolCall tc] st) tc) tcs)
                      = events (run_call env sid (logged [OnToolCall tc] st) tc) @ es2"
    using Cons.IH by blast
  then have "events (run_pending env sid st (tc # tcs)) = events st @ ([OnToolCall tc] @ es1 @ es2)"
    using e1 by simp
  then show ?case by blast
qed

lemma run_new_events: "\<exists>es. events (run_new env sid st tcs) = events st @ es"
proof (induction tcs arbitrary: st)
  case Nil
  show ?case by simp
next
  case (Cons tc tcs)
  obtain es1 where e1: "events (run_call env sid st tc) = events st @ es1"
    using run_call_events by blast
  obtain es2 where "events (run_new env sid (run_call env sid st tc) tcs)
                      = events (run_call env sid st tc) @ es2"
    using Cons.IH by blast
  then have "events (run_new env sid st (tc # tcs)) = events st @ (es1 @ es2)"
    using e1 by simp
  then show ?case by blast
qed

lemma follow_up_eq:
  "follow_up env sid st pending =
     (let g = snd (request_turn env sid st);
          st2 = logged (concat (map follow_up_events (fst g))) (fst (request_turn env sid st))
      in case snd g of
           Threw x \<Rightarrow> (Abort (Threw x), st2)
         | Stalled \<Rightarrow> (Abort Stalled, st2)
         | Returned \<Rightarrow>
             (let st3 = add_assistant env sid st2 (clean_content (contents (fst g)))
              in if tool_calls (fst g) = [] then (Break, st3)
                 else if clean_content (contents (fst g)) = []
                         \<and> same_call env (last pending) (hd (tool_calls (fst g)))
                 then (Break, logged [OnChunk (text_chunk done_notice)] st3)
                 else (Continue, run_new env sid st3 (tool_calls (fst g)))))"
proof -
  obtain st1 cs e where r: "request_turn env sid st = (st1, cs, e)"
    by (cases "request_turn env sid st") auto
  show ?thesis
    by (cases e; cases "tool_calls cs")
      (simp_all add: follow_up_def r Let_def del: request_turn_fields run_new.simps)
qed

section \<open>The bound of the round counter\<close>

lemma rounds_bounded:
  "r \<le> maxRounds \<Longrightarrow> fst (snd (rounds env sid st r)) \<le> maxRounds"
proof (induction env sid st r rule: rounds.induct)
  case (1 env sid st r)
  show ?case
  proof (cases "r < maxRounds")
    case False
    then have "rounds env sid st r = (Returned, r, st)"
      by (subst rounds.simps) simp
    then show ?thesis using "1.prems" by simp
  next
    case True
    obtain lv st' where o: "one_round env sid st = (lv, st')"
      by (cases "one_round env sid st")
    show ?thesis
    proof (cases lv)
      case Continue
      have "fst (snd (rounds env sid st' (Suc r))) \<le> maxRounds"
        using "1.IH" [OF True o [symmetric] Continue] True by simp
      then show ?thesis using True o Continue by (simp add: rounds.simps [of env sid st r])
    next
      case Break
      then show ?thesis using True o by (simp add: rounds.simps [of env sid st r])
    next
      case (Abort x)
      then show ?thesis using True o by (simp add: rounds.simps [of env sid st r])
    qed
  qed
qed

lemma createSession_fields [simp]:
  "events (snd (createSession env st)) = events st"
  "requests (snd (createSession env st)) = requests st"
  "executed (snd (createSession env st)) = executed st"
  by (simp_all add: createSession_def Let_def)

section \<open>A round of two turns\<close>

lemma run_call_chunks:
  "OnChunk c \<in> set (events (run_call env sid st tc)) \<longleftrightarrow> OnChunk c \<in> set (events st)"
  by (simp add: run_call_def Let_def createTask_def task_execute_def executeToolCall_def
      logged_def split: prod.splits)

lemma run_pending_chunks:
  "OnChunk c \<in> set (events (run_pending env sid st tcs)) \<longleftrightarrow> OnChunk c \<in> set (events st)"
  by (induction tcs arbitrary: st) (simp_all add: run_call_chunks)

lemma run_new_chunks:
  "OnChunk c \<in> set (events (run_new env sid st tcs)) \<longleftrightarrow> OnChunk c \<in> set (events st)"
  by (induction tcs arbitrary: st) (simp_all add: run_call_chunks)

lemma follow_up_events_chunks:
  "OnChunk c \<in> set (concat (map follow_up_events cs)) \<longleftrightarrow> c \<in> set cs \<and> truthy (content c)"
  by (induction cs) (auto simp: follow_up_events_def split: option.splits)

lemma one_round_first_turn:
  assumes "pulled env (length (requests st)) (getMessages st sid (Some 20)) = (cs1, Returned)"
    and "tool_calls cs1 \<noteq> []"
  shows "\<exists>st4. one_round env sid st = follow_up env sid st4 (tool_calls cs1)
           \<and> length (requests st4) = Suc (length (requests st))
           \<and> executed st4 = executed st @ map ran (tool_calls cs1)
           \<and> (\<exists>es. events st4 = events st @ es)
           \<and> (\<forall>c. OnChunk c \<in> set (events st4)
                    \<longleftrightarrow> OnChunk c \<in> set (events st) \<or> c \<in> set cs1)"
proof -
  define st1 where "st1 = fst (request_turn env sid st)"
  have r1: "snd (request_turn env sid st) = (cs1, Returned)"
    using assms(1) by (simp add: pulled_def)
  define st3 where "st3 = add_assistant env sid (logged (map OnChunk cs1) st1)
                            (clean_content (contents cs1))"
  define st4 where "st4 = run_pending env sid st3 (tool_calls cs1)"
  have o: "one_round env sid st = follow_up env sid st4 (tool_calls cs1)"
    using r1 assms(2)
    by (simp add: one_round_eq Let_def st1_def [symmetric] st3_def [symmetric]
        st4_def [symmetric] del: request_turn_fields)
  have q4: "length (requests st4) = Suc (length (requests st))"
    by (simp add: st4_def st3_def st1_def)
  have x4: "executed st4 = executed st @ map ran (tool_calls cs1)"
    by (simp add: st4_def st3_def st1_def)
  have e3: "events st3 = events st @ map OnChunk cs1"
    by (simp add: st3_def st1_def)
  obtain es where "events st4 = events st3 @ es"
    unfolding st4_def using run_pending_events by blast
  then have e4: "\<exists>es. events st4 = events st @ es"
    using e3 by simp
  have c4: "OnChunk c \<in> set (events st4) \<longleftrightarrow> OnChunk c \<in> set (events st) \<or> c \<in> set cs1" for c
    unfolding st4_def run_pending_chunks e3 by auto
  show ?thesis using o q4 x4 e4 c4 by blast
qed

lemma follow_up_turn:
  assumes "pulled env (length (requests st)) (getMessages st sid (Some 20)) = (cs2, Returned)"
  shows "\<exists>st'. follow_up env sid st pending
             = (if tool_calls cs2 = []
                   \<or> clean_content (contents cs2) = []
                     \<and> same_call env (last pending) (hd (tool_calls cs2))
                then Break else Continue, st')
           \<and> length (requests st') = Suc (length (requests st))
           \<and> executed st'
               = executed st
                 @ (if tool_calls cs2 = []
                       \<or> clean_content (contents cs2) = []
                         \<and> same_call env (last pending) (hd (tool_calls cs2))
                    then [] else map ran (tool_calls cs2))
           \<and> (\<exists>es. events st'
                 = events st @ es
                   @ (if tool_calls cs2 \<noteq> [] \<and> clean_content (contents cs2) = []
                         \<and> same_call env (last pending) (hd (tool_calls cs2))
                      then [OnChunk (text_chunk done_notice)] else []))
           \<and> (\<forall>c. OnChunk c \<in> set (events st')
                    \<longleftrightarrow> OnChunk c \<in> set (events st) \<or> c \<in> set cs2 \<and> truthy (content c)
                       \<or> tool_calls cs2 \<noteq> [] \<and> clean_content (contents cs2) = []
                         \<and> same_call env (last pending) (hd (tool_calls cs2))
                         \<and> c = text_chunk done_notice)"
proof -
  define st5 where "st5 = fst (request_turn env sid st)"
  have r2: "snd (request_turn env sid st) = (cs2, Returned)"
    using assms by (simp add: pulled_def)
  define st6 where "st6 = logged (concat (map follow_up_events cs2)) st5"
  define st7 where "st7 = add_assistant env sid st6 (clean_content (contents cs2))"
  have q7: "length (requests st7) = Suc (length (requests st))"
    and x7: "executed st7 = executed st"
    and e7: "events st7 = events st @ concat (map follow_up_events cs2)"
    by (simp_all add: st7_def st6_def st5_def)
  have c7: "OnChunk c \<in> set (events st7)
              \<longleftrightarrow> OnChunk c \<in> set (events st) \<or> c \<in> set cs2 \<and> truthy (content c)" for c
    unfolding e7 using follow_up_events_chunks [of c cs2] by auto
  have f: "follow_up env sid st pending =
      (if tool_calls cs2 = [] then (Break, st7)
       else if clean_content (contents cs2) = []
               \<and> same_call env (last pending) (hd (tool_calls cs2))
       then (Break, logged [OnChunk (text_chunk done_notice)] st7)
       else (Continue, run_new env sid st7 (tool_calls cs2)))"
    using r2
    by (simp add: follow_up_eq Let_def st5_def [symmetric] st6_def [symmetric]
        st7_def [symmetric] del: request_turn_fields)
  consider (none) "tool_calls cs2 = []"
    | (same) "tool_calls cs2 \<noteq> []" "clean_content (contents cs2) = []
               \<and> same_call env (last pending) (hd (tool_calls cs2))"
    | (more) "tool_calls cs2 \<noteq> []" "\<not> (clean_content (contents cs2) = []
               \<and> same_call env (last pending) (hd (tool_calls cs2)))"
    by blast
  then show ?thesis
  proof cases
    case none
    have "events st7 = events st @ concat (map follow_up_events cs2) @ []"
      using e7 by simp
    then show ?thesis using none f q7 x7 c7 by (intro exI [of _ st7]) auto
  next
    case same
    define st' where "st' = logged [OnChunk (text_chunk done_notice)] st7"
    have "events st' = events st @ concat (map follow_up_events cs2)
                        @ [OnChunk (text_chunk done_notice)]"
      using e7 by (simp add: st'_def)
    moreover have "OnChunk c \<in> set (events st')
              \<longleftrightarrow> OnChunk c \<in> set (events st) \<or> c \<in> set cs2 \<and> truthy (content c)
                  \<or> c = text_chunk done_notice" for c
      using c7 [of c] by (auto simp: st'_def)
    moreover have "length (requests st') = Suc (length (requests st))" "executed st' = executed st"
      using q7 x7 by (simp_all add: st'_def)
    moreover have "follow_up env sid st pending = (Break, st')"
      using f same by (simp add: st'_def)
    ultimately show ?thesis using same by (intro exI [of _ st']) auto
  next
    case more
    define st' where "st' = run_new env sid st7 (tool_calls cs2)"
    obtain es where "events st' = events st7 @ es"
      unfolding st'_def using run_new_events by blast
    then have "events st' = events st @ (concat (map follow_up_events cs2) @ es) @ []"
      using e7 by simp
    moreover have "OnChunk c \<in> set (events st')
              \<longleftrightarrow> OnChunk c \<in> set (events st) \<or> c \<in> set cs2 \<and> truthy (content c)" for c
      using c7 [of c] by (simp add: st'_def run_new_chunks)
    moreover have "length (requests st') = Suc (length (requests st))"
      "executed st' = executed st @ map ran (tool_calls cs2)"
      using q7 x7 by (simp_all add: st'_def)
    moreover have "follow_up env sid st pending = (Continue, st')"
      using f more by (auto simp: st'_def)
    ultimately show ?thesis using more by (intro exI [of _ st']) auto
  qed
qed

lemma one_round_two_turns:
  assumes p1: "pulled env (length (requests st)) (getMessages st sid (Some 20)) = (cs1, Returned)"
    and t1: "tool_calls cs1 \<noteq> []"
    and p2: "\<forall>msgs. pulled env (Suc (length (requests st))) msgs = (cs2, Returned)"
  shows "\<exists>st'. one_round env sid st
             = (if tool_calls cs2 = []
                   \<or> clean_content (contents cs2) = []
                     \<and> same_call env (last (tool_calls cs1)) (hd (tool_calls cs2))
                then Break else Continue, st')
           \<and> length (requests st') = length (requests st) + 2
           \<and> executed st'
               = executed st @ map ran (tool_calls cs1)
                 @ (if tool_calls cs2 = []
                       \<or> clean_content (contents cs2) = []
                         \<and> same_call env (last (tool_calls cs1)) (hd (tool_calls cs2))
                    then [] else map ran (tool_calls cs2))
           \<and> (\<exists>es. events st'
                 = events st @ es
                   @ (if tool_calls cs2 \<noteq> [] \<and> clean_content (contents cs2) = []
                         \<and> same_call env (last (tool_calls cs1)) (hd (tool_calls cs2))
                      then [OnChunk (text_chunk done_notice)] else []))
           \<and> (\<forall>c. OnChunk c \<in> set (events st')
                    \<longleftrightarrow> OnChunk c \<in> set (events st) \<or> c \<in> set cs1
                       \<or> c \<in> set cs2 \<and> truthy (content c)
                       \<or> tool_calls cs2 \<noteq> [] \<and> clean_content (contents cs2) = []
                         \<and> same_call env (last (tool_calls cs1)) (hd (tool_calls cs2))
                         \<and> c = text_chunk done_notice)"
proof -
  obtain st4 where o: "one_round env sid st = follow_up env sid st4 (tool_calls cs1)"
    and q4: "length (requests st4) = Suc (length (requests st))"
    and x4: "executed st4 = executed st @ map ran (tool_calls cs1)"
    and e4: "\<exists>es. events st4 = events st @ es"
    and c4: "\<And>c. OnChunk c \<in> set (events st4) \<longleftrightarrow> OnChunk c \<in> set (events st) \<or> c \<in> set cs1"
    using one_round_first_turn [OF p1 t1] by blast
  have "pulled env (length (requests st4)) (getMessages st4 sid (Some 20)) = (cs2, Returned)"
    using p2 q4 by simp
  from follow_up_turn [OF this, of "tool_calls cs1"]
  obtain st' es' where f: "follow_up env sid st4 (tool_calls cs1)
             = (if tool_calls cs2 = []
                   \<or> clean_content (contents cs2) = []
                     \<and> same_call env (last (tool_calls cs1)) (hd (tool_calls cs2))
                then Break else Continue, st')"
    and q: "length (requests st') = Suc (length (requests st4))"
    and x: "executed st'
               = executed st4
                 @ (if tool_calls cs2 = []
                       \<or> clean_content (contents cs2) = []
                         \<and> same_call env (last (tool_calls cs1)) (hd (tool_calls cs2))
                    then [] else map ran (tool_calls cs2))"
    and e: "events st'
                 = events st4 @ es'
                   @ (if tool_calls cs2 \<noteq> [] \<and> clean_content (contents cs2) = []
                         \<and> same_call env (last (tool_calls cs1)) (hd (tool_calls cs2))
                      then [OnChunk (text_chunk done_notice)] else [])"
    and c: "\<And>c. OnChunk c \<in> set (events st')
                    \<longleftrightarrow> OnChunk c \<in> set (events st4) \<or> c \<in> set cs2 \<and> truthy (content c)
                       \<or> tool_calls cs2 \<noteq> [] \<and> clean_content (contents cs2) = []
                         \<and> same_call env (last (tool_calls cs1)) (hd (tool_calls cs2))
                         \<and> c = text_chunk done_notice"
    by blast
  obtain es4 where e4': "events st4 = events st @ es4" using e4 by blast
  have 1: "one_round env sid st
             = (if tool_calls cs2 = []
                   \<or> clean_content (contents cs2) = []
                     \<and> same_call env (last (tool_calls cs1)) (hd (tool_calls cs2))
                then Break else Continue, st')"
    using o f by simp
  have 2: "length (requests st') = length (requests st) + 2"
    using q q4 by simp
  have 3: "executed st'
               = executed st @ map ran (tool_calls cs1)
                 @ (if tool_calls cs2 = []
                       \<or> clean_content (contents cs2) = []
                         \<and> same_call env (last (tool_calls cs1)) (hd (tool_calls cs2))
                    then [] else map ran (tool_calls cs2))"
    using x x4 by simp
  have 4: "\<exists>es. events st'
                 = events st @ es
                   @ (if tool_calls cs2 \<noteq> [] \<and> clean_content (contents cs2) = []
                         \<and> same_call env (last (tool_calls cs1)) (hd (tool_calls cs2))
                      then [OnChunk (text_chunk done_notice)] else [])"
    using e e4' by (intro exI [of _ "es4 @ es'"]) simp
  have 5: "\<forall>c. OnChunk c \<in> set (events st')
                    \<longleftrightarrow> OnChunk c \<in> set (events st) \<or> c \<in> set cs1
                       \<or> c \<in> set cs2 \<and> truthy (content c)
                       \<or> tool_calls cs2 \<noteq> [] \<and> clean_content (contents cs2) = []
                         \<and> same_call env (last (tool_calls cs1)) (hd (tool_calls cs2))
                         \<and> c = text_chunk done_notice"
    unfolding c c4 by blast
  show ?thesis using 1 2 3 4 5 by blast
qed

lemma processMessageStream_rounds:
  "rounds env sid
     (addMessage env (case sessions st sid of None \<Rightarrow> snd (createSession env st) | Some s \<Rightarrow> st)
        sid (new_message User text)) 0 = (e, r, st3)
   \<Longrightarrow> processMessageStream env st sid text =
    (case e of
       Returned \<Rightarrow>
         \<lparr>ended = Returned, currentRound = r,
          final = logged ((if r \<ge> maxRounds then [OnChunk (text_chunk truncation_notice)] else [])
                       @ [OnComplete]) st3\<rparr>
     | Threw x \<Rightarrow> \<lparr>ended = Threw x, currentRound = r, final = logged [OnError x] st3\<rparr>
     | Stalled \<Rightarrow> \<lparr>ended = Stalled, currentRound = r, final = st3\<rparr>)"
  by (simp add: processMessageStream_def)

lemma start_fields:
  "events (addMessage env (case sessions st sid of None \<Rightarrow> snd (createSession env st) | Some s \<Rightarrow> st)
        sid (new_message User text)) = events st"
  "requests (addMessage env (case sessions st sid of None \<Rightarrow> snd (createSession env st) | Some s \<Rightarrow> st)
        sid (new_message User text)) = requests st"
  "executed (addMessage env (case sessions st sid of None \<Rightarrow> snd (createSession env st) | Some s \<Rightarrow> st)
        sid (new_message User text)) = executed st"
  by (simp_all split: option.splits)



lemma pulled_sample:
  "pulled (sample_env reg turns) n msgs = pull (fst (turns n)) (snd (turns n))"
  by (simp add: pulled_def sample_env_def)

lemma known_run_fields:
  "requests known_run = []" "executed known_run = []" "events known_run = []"
  "sessions known_run (str ''s1'')
     = Some \<lparr>session_id = str ''s1'', messages = [], created = 0, updated = 0\<rparr>"
  by (simp_all add: known_run_def fresh_run_def)

section \<open>Unknown tools\<close>





section \<open>The duplicate-call guard\<close>




section \<open>The round cap\<close>

lemma rounds_reach_cap:
  assumes "r \<le> maxRounds"
    and "\<forall>n msgs. length (requests st) \<le> n \<and> n < length (requests st) + 2 * (maxRounds - r)
            \<longrightarrow> pulled env n msgs = (cs n, Returned) \<and> tool_calls (cs n) \<noteq> []"
    and "\<forall>k<maxRounds - r.
            \<not> (clean_content (contents (cs (length (requests st) + 2 * k + 1))) = []
               \<and> same_call env (last (tool_calls (cs (length (requests st) + 2 * k))))
                    (hd (tool_calls (cs (length (requests st) + 2 * k + 1)))))"
  shows "\<exists>st'. rounds env sid st r = (Returned, maxRounds, st')
           \<and> length (requests st') = length (requests st) + 2 * (maxRounds - r)
           \<and> executed st'
               = executed st
                 @ concat (map (\<lambda>n. map ran (tool_calls (cs n)))
                     [length (requests st) ..< length (requests st) + 2 * (maxRounds - r)])
           \<and> (\<exists>es. events st' = events st @ es)"
  using assms
proof (induction "maxRounds - r" arbitrary: r st)
  case 0
  then have "r = maxRounds" by simp
  then have "rounds env sid st r = (Returned, maxRounds, st)"
    by (subst rounds.simps) simp
  then show ?case using \<open>r = maxRounds\<close> by simp
next
  case (Suc m)
  define q where "q = length (requests st)"
  have lt: "r < maxRounds" and m: "maxRounds - r = Suc m" using Suc.hyps(2) by simp_all
  note d = Suc.prems(2) [unfolded m, folded q_def]
  note b = Suc.prems(3) [unfolded m, folded q_def]
  have p1: "pulled env (length (requests st)) (getMessages st sid (Some 20)) = (cs q, Returned)"
    and t1: "tool_calls (cs q) \<noteq> []"
    using d [rule_format, of q] by (simp_all add: q_def)
  have p2: "\<forall>msgs. pulled env (Suc (length (requests st))) msgs = (cs (Suc q), Returned)"
    and t2: "tool_calls (cs (Suc q)) \<noteq> []"
    using d [rule_format, of "Suc q"] by (simp_all add: q_def)
  have g: "\<not> (clean_content (contents (cs (Suc q))) = []
             \<and> same_call env (last (tool_calls (cs q))) (hd (tool_calls (cs (Suc q)))))"
    using b [rule_format, of 0] by simp
  from one_round_two_turns [OF p1 t1 p2]
  obtain st1 es1 where o: "one_round env sid st = (Continue, st1)"
    and q1: "length (requests st1) = q + 2"
    and x1: "executed st1 = executed st @ map ran (tool_calls (cs q))
                              @ map ran (tool_calls (cs (Suc q)))"
    and e1: "events st1 = events st @ es1"
    using t2 g by (auto simp: q_def)
  have m1: "m = maxRounds - Suc r" using m by simp
  have le: "Suc r \<le> maxRounds" using lt by simp
  have d1: "\<forall>n msgs. length (requests st1) \<le> n
              \<and> n < length (requests st1) + 2 * (maxRounds - Suc r)
            \<longrightarrow> pulled env n msgs = (cs n, Returned) \<and> tool_calls (cs n) \<noteq> []"
    using d m1 q1 by simp
  have b1: "\<forall>k<maxRounds - Suc r.
            \<not> (clean_content (contents (cs (length (requests st1) + 2 * k + 1))) = []
               \<and> same_call env (last (tool_calls (cs (length (requests st1) + 2 * k))))
                    (hd (tool_calls (cs (length (requests st1) + 2 * k + 1)))))"
  proof (intro allI impI)
    fix k assume "k < maxRounds - Suc r"
    then have "Suc k < Suc m" using m1 by simp
    from b [rule_format, OF this]
    show "\<not> (clean_content (contents (cs (length (requests st1) + 2 * k + 1))) = []
               \<and> same_call env (last (tool_calls (cs (length (requests st1) + 2 * k))))
                    (hd (tool_calls (cs (length (requests st1) + 2 * k + 1)))))"
      by (simp add: q1 add.commute add.left_commute)
  qed
  from Suc.hyps(1) [OF m1 le d1 b1]
  obtain st' es' where l: "rounds env sid st1 (Suc r) = (Returned, maxRounds, st')"
    and q': "length (requests st') = length (requests st1) + 2 * (maxRounds - Suc r)"
    and x': "executed st'
               = executed st1
                 @ concat (map (\<lambda>n. map ran (tool_calls (cs n)))
                     [length (requests st1) ..< length (requests st1) + 2 * (maxRounds - Suc r)])"
    and e': "events st' = events st1 @ es'"
    by blast
  have u: "[q ..< q + 2 * Suc m] = q # Suc q # [q + 2 ..< q + 2 + 2 * m]"
    by (simp add: upt_conv_Cons)
  have "rounds env sid st r = (Returned, maxRounds, st')"
    using lt o l by (simp add: rounds.simps [of env sid st r])
  moreover have "length (requests st') = length (requests st) + 2 * (maxRounds - r)"
    using q' q1 m m1 by (simp add: q_def)
  moreover have "executed st'
               = executed st
                 @ concat (map (\<lambda>n. map ran (tool_calls (cs n)))
                     [length (requests st) ..< length (requests st) + 2 * (maxRounds - r)])"
    unfolding x' x1 q1 m q_def [symmetric] m1 [symmetric] u by simp
  moreover have "\<exists>es. events st' = events st @ es"
    using e1 e' by simp
  ultimately show ?case by blast
qed

lemma process_reaches_cap:
  assumes "\<forall>n msgs. length (requests st) \<le> n \<and> n < length (requests st) + 2 * maxRounds
            \<longrightarrow> pulled env n msgs = (cs n, Returned) \<and> tool_calls (cs n) \<noteq> []"
    and "\<forall>k<maxRounds.
            \<not> (clean_content (contents (cs (length (requests st) + 2 * k + 1))) = []
               \<and> same_call env (last (tool_calls (cs (length (requests st) + 2 * k))))
                    (hd (tool_calls (cs (length (requests st) + 2 * k + 1)))))"
  shows "ended (processMessageStream env st sid text) = Returned
       \<and> currentRound (processMessageStream env st sid text) = maxRounds
       \<and> (\<exists>es. events (final (processMessageStream env st sid text))
                = events st @ es @ [OnChunk (text_chunk truncation_notice), OnComplete])
       \<and> length (requests (final (processMessageStream env st sid text)))
           = length (requests st) + 2 * maxRounds
       \<and> executed (final (processMessageStream env st sid text))
           = executed st
             @ concat (map (\<lambda>n. map ran (tool_calls (cs n)))
                 [length (requests st) ..< length (requests st) + 2 * maxRounds])"
proof -
  define st2 where "st2 = addMessage env
      (case sessions st sid of None \<Rightarrow> snd (createSession env st) | Some s \<Rightarrow> st)
      sid (new_message User text)"
  have f2: "events st2 = events st" "requests st2 = requests st" "executed st2 = executed st"
    unfolding st2_def by (rule start_fields)+
  have "0 \<le> maxRounds" by simp
  from rounds_reach_cap [OF this, of st2 env cs sid] assms
  obtain st3 es where l: "rounds env sid st2 0 = (Returned, maxRounds, st3)"
    and q3: "length (requests st3) = length (requests st) + 2 * maxRounds"
    and x3: "executed st3
               = executed st
                 @ concat (map (\<lambda>n. map ran (tool_calls (cs n)))
                     [length (requests st) ..< length (requests st) + 2 * maxRounds])"
    and e3: "events st3 = events st @ es"
    unfolding f2 by auto
  from processMessageStream_rounds [OF l [unfolded st2_def]]
  have p: "processMessageStream env st sid text
      = \<lparr>ended = Returned, currentRound = maxRounds,
         final = logged [OnChunk (text_chunk truncation_notice), OnComplete] st3\<rparr>"
    by simp
  have "events (final (processMessageStream env st sid text))
          = events st @ es @ [OnChunk (text_chunk truncation_notice), OnComplete]"
    using p e3 by simp
  then show ?thesis using p q3 x3 by auto
qed

text \<open>
  C2, as stated, fails for the rounds of the specification, which are one turn and the
  calls it produced each, and for a counter that belongs to the session. With a provider
  whose every turn has a text and a call, one call of \<^verbatim>\<open>processMessageStream\<close> makes
  ten requests and runs ten calls while its counter goes to 5, and a second call for the
  same session makes ten requests more with its counter at 5 again.
\<close>

theorem ten_turns_in_five_rounds_counterexample:
  "length (requests (final (processMessageStream (sample_env one_tool calling_turns)
                              known_run (str ''s1'') (str ''go'')))) = 10
   \<and> executed (final (processMessageStream (sample_env one_tool calling_turns)
                        known_run (str ''s1'') (str ''go'')))
       = replicate 10 (str ''screenshot'', JObj [])
   \<and> currentRound (processMessageStream (sample_env one_tool calling_turns)
                     known_run (str ''s1'') (str ''go'')) = 5
   \<and> currentRound (processMessageStream (sample_env one_tool calling_turns)
                     (final (processMessageStream (sample_env one_tool calling_turns)
                               known_run (str ''s1'') (str ''go'')))
                     (str ''s1'') (str ''on'')) = 5
   \<and> length (requests (final (processMessageStream (sample_env one_tool calling_turns)
                                (final (processMessageStream (sample_env one_tool calling_turns)
                                          known_run (str ''s1'') (str ''go'')))
                                (str ''s1'') (str ''on'')))) = 20"
proof -
  let ?tc = "call_of ''a'' ''screenshot''"
  let ?cs = "[text_chunk (str ''x''), call_chunk ?tc False, final_chunk]"
  let ?env = "sample_env one_tool calling_turns"
  let ?P = "processMessageStream ?env known_run (str ''s1'') (str ''go'')"
  let ?Q = "processMessageStream ?env (final ?P) (str ''s1'') (str ''on'')"
  have p: "pulled ?env k msgs = (?cs, Returned)" for k msgs
    by (simp add: pulled_sample calling_turns_def text_chunk_def call_chunk_def final_chunk_def
        emit_def)
  have t: "tool_calls ?cs = [?tc]"
    by (simp add: tool_calls_def text_chunk_def call_chunk_def final_chunk_def)
  have c: "clean_content (contents ?cs) \<noteq> []"
    by (simp add: clean_content_def contents_def text_chunk_def call_chunk_def final_chunk_def
        truthy_def or_empty_def trim_def str_def tc_open_def starts_with_def is_space_def)
  have a: "\<forall>n msgs. length (requests s) \<le> n \<and> n < length (requests s) + 2 * maxRounds
            \<longrightarrow> pulled ?env n msgs = ((\<lambda>n. ?cs) n, Returned) \<and> tool_calls ((\<lambda>n. ?cs) n) \<noteq> []" for s
    using p t by simp
  have b: "\<forall>k<maxRounds.
            \<not> (clean_content (contents ((\<lambda>n. ?cs) (length (requests s) + 2 * k + 1))) = []
               \<and> same_call ?env (last (tool_calls ((\<lambda>n. ?cs) (length (requests s) + 2 * k))))
                    (hd (tool_calls ((\<lambda>n. ?cs) (length (requests s) + 2 * k + 1)))))" for s
    using c by simp
  have r: "concat (map (\<lambda>n. map ran (tool_calls ?cs)) [i ..< i + k])
             = replicate k (str ''screenshot'', JObj [])" for i k
    unfolding t by (induction k) (simp_all add: ran_def call_of_def replicate_append_same)
  note P = process_reaches_cap [OF a b, of known_run "str ''s1''" "str ''go''"]
  note Q = process_reaches_cap [OF a b, of "final ?P" "str ''s1''" "str ''on''"]
  have 1: "length (requests (final ?P)) = 10"
    using P by (simp add: known_run_fields maxRounds_def)
  have 2: "executed (final ?P) = replicate 10 (str ''screenshot'', JObj [])"
    using P r [of 0 10] by (simp add: known_run_fields maxRounds_def)
  have 3: "currentRound ?P = 5" using P by (simp add: maxRounds_def)
  have 4: "currentRound ?Q = 5" using Q by (simp add: maxRounds_def)
  have 5: "length (requests (final ?Q)) = 20"
    using Q 1 by (simp add: maxRounds_def)
  show ?thesis using 1 2 3 4 5 by blast
qed

text \<open>
  C2, amended. The counter \<^verbatim>\<open>currentRound\<close> is a variable of one call of
  \<^verbatim>\<open>processMessageStream\<close>: it starts at 0 in every call, counts the iterations of the
  while loop, each of up to two turns, and ends at most at the cap, which is 5. When the
  ten turns from the first request of the call on return with at least one tool call
  each (\<open>cs n\<close> being the chunks pulled from request \<open>n\<close>), and in none of the five
  iterations the follow-up turn is without clean text while its first call repeats the
  last call of the first turn, the call completes with the counter at the cap after ten
  requests, it has run the calls of the ten turns in order, and the last two things it
  sends are the truncation notice (two line feeds and, in brackets, U+5DF2 U+8FBE U+5230
  U+6700 U+5927 U+5904 U+7406 U+8F6E U+6570 U+FF0C U+4EFB U+52A1 U+53EF U+80FD U+672A
  U+5B8C U+5168 U+5B8C U+6210) and the completion.
\<close>

theorem round_counter_stops_at_cap:
  "currentRound (processMessageStream env st sid text) \<le> maxRounds
   \<and> maxRounds = 5
   \<and> ((\<forall>n msgs. length (requests st) \<le> n \<and> n < length (requests st) + 10
            \<longrightarrow> pulled env n msgs = (cs n, Returned) \<and> tool_calls (cs n) \<noteq> [])
        \<and> (\<forall>k<5.
              \<not> (clean_content (contents (cs (length (requests st) + 2 * k + 1))) = []
                 \<and> same_call env (last (tool_calls (cs (length (requests st) + 2 * k))))
                      (hd (tool_calls (cs (length (requests st) + 2 * k + 1))))))
       \<longrightarrow> ended (processMessageStream env st sid text) = Returned
         \<and> currentRound (processMessageStream env st sid text) = 5
         \<and> (\<exists>es. events (final (processMessageStream env st sid text))
                  = events st @ es
                    @ [OnChunk \<lparr>content = Some [10, 10, 91, 24050, 36798, 21040, 26368, 22823,
                                   22788, 29702, 36718, 25968, 65292, 20219, 21153, 21487, 33021,
                                   26410, 23436, 20840, 23436, 25104, 93],
                                 toolCall = None, isComplete = False\<rparr>,
                       OnComplete])
         \<and> length (requests (final (processMessageStream env st sid text)))
             = length (requests st) + 10
         \<and> executed (final (processMessageStream env st sid text))
             = executed st
               @ concat (map (\<lambda>n. map ran (tool_calls (cs n)))
                   [length (requests st) ..< length (requests st) + 10]))"
proof -
  define st2 where "st2 = addMessage env
      (case sessions st sid of None \<Rightarrow> snd (createSession env st) | Some s \<Rightarrow> st)
      sid (new_message User text)"
  obtain e r st3 where l: "rounds env sid st2 0 = (e, r, st3)"
    by (cases "rounds env sid st2 0")
  have c: "currentRound (processMessageStream env st sid text) = r"
    using processMessageStream_rounds [OF l [unfolded st2_def]] by (cases e) simp_all
  have "r \<le> maxRounds"
    using rounds_bounded [of 0 env sid st2] l by simp
  then have bound: "currentRound (processMessageStream env st sid text) \<le> maxRounds"
    using c by simp
  have nt: "text_chunk truncation_notice
      = \<lparr>content = Some [10, 10, 91, 24050, 36798, 21040, 26368, 22823,
                         22788, 29702, 36718, 25968, 65292, 20219, 21153, 21487, 33021,
                         26410, 23436, 20840, 23436, 25104, 93],
         toolCall = None, isComplete = False\<rparr>"
    by (simp add: text_chunk_def truncation_notice_def)
  have m: "maxRounds = 5" "2 * maxRounds = 10" by (simp_all add: maxRounds_def)
  note cap = process_reaches_cap [of st env cs sid "text", unfolded nt, unfolded m(2), unfolded m(1)]
  show ?thesis using bound cap m(1) by blast
qed

theorem round_counter_stops_at_cap_witness:
  "currentRound (processMessageStream (sample_env two_tools alternating_turns)
      known_run (str ''s1'') (str ''go'')) = 5
   \<and> length (requests (final (processMessageStream (sample_env two_tools alternating_turns)
      known_run (str ''s1'') (str ''go'')))) = 10
   \<and> executed (final (processMessageStream (sample_env two_tools alternating_turns)
      known_run (str ''s1'') (str ''go''))) = replicate 10 (str ''click'', JObj [])"
proof -
  let ?tc = "call_of ''b'' ''click''"
  let ?env = "sample_env two_tools alternating_turns"
  let ?cs = "\<lambda>n. fst (alternating_turns n)"
  let ?P = "processMessageStream ?env known_run (str ''s1'') (str ''go'')"
  have p: "pulled ?env k msgs = (?cs k, Returned)" for k msgs
    by (simp add: pulled_sample alternating_turns_def text_chunk_def call_chunk_def
        final_chunk_def emit_def)
  have t: "tool_calls (?cs k) = [?tc]" for k
    by (simp add: alternating_turns_def tool_calls_def text_chunk_def call_chunk_def
        final_chunk_def)
  have c: "clean_content (contents (?cs (2 * k + 1))) \<noteq> []" for k
    by (simp add: alternating_turns_def clean_content_def contents_def text_chunk_def
        call_chunk_def final_chunk_def truthy_def or_empty_def trim_def str_def tc_open_def
        starts_with_def is_space_def)
  have a: "\<forall>n msgs. length (requests known_run) \<le> n \<and> n < length (requests known_run) + 10
            \<longrightarrow> pulled ?env n msgs = (?cs n, Returned) \<and> tool_calls (?cs n) \<noteq> []"
    using p t by simp
  have b: "\<forall>k<5.
            \<not> (clean_content (contents (?cs (length (requests known_run) + 2 * k + 1))) = []
               \<and> same_call ?env (last (tool_calls (?cs (length (requests known_run) + 2 * k))))
                    (hd (tool_calls (?cs (length (requests known_run) + 2 * k + 1)))))"
    using c by (simp add: known_run_fields)
  have r: "concat (map (\<lambda>n. map ran (tool_calls (?cs n))) [i ..< i + k])
             = replicate k (str ''click'', JObj [])" for i k
    unfolding t by (induction k) (simp_all add: ran_def call_of_def replicate_append_same)
  from round_counter_stops_at_cap [of ?env known_run "str ''s1''" "str ''go''" ?cs] a b
  have "currentRound ?P = 5
      \<and> length (requests (final ?P)) = length (requests known_run) + 10
      \<and> executed (final ?P)
           = executed known_run
             @ concat (map (\<lambda>n. map ran (tool_calls (?cs n)))
                 [length (requests known_run) ..< length (requests known_run) + 10])"
    by blast
  then show ?thesis
    using r [of 0 10] by (simp add: known_run_fields)
qed

section \<open>Final chunks\<close>

lemma final_chunk_complete [simp]: "isComplete final_chunk"
  by (simp add: final_chunk_def)

lemma text_chunk_incomplete [simp]: "\<not> isComplete (text_chunk s)"
  by (simp add: text_chunk_def)

lemma one_final_after:
  "filter isComplete ys = [] \<Longrightarrow> one_final cs \<Longrightarrow> one_final (ys @ cs)"
  by (simp add: one_final_def)

lemma on_thinking_incomplete: "filter isComplete (fst (on_thinking st ev)) = []"
  by (simp add: on_thinking_def split: option.splits mm_delta.splits)

lemma on_text_incomplete: "filter isComplete (fst (on_text st ev)) = []"
  by (simp add: on_text_def split: option.splits mm_delta.splits)

lemma on_message_stop_one_final: "one_final (on_message_stop parse ids st)"
  by (simp add: on_message_stop_def one_final_def call_chunk_def filter_map o_def
      split: option.splits)

text \<open>
  The MiniMax generator returns right after the final chunk of \<^verbatim>\<open>message_stop\<close> and
  of \<^verbatim>\<open>[DONE]\<close>: read to the end, on a body that ends without failure, it yields
  exactly one complete chunk, the last one.
\<close>

lemma minimax_lines_one_final:
  "snd (minimax_lines parse ids st ls Returned) = Returned
   \<and> one_final (fst (minimax_lines parse ids st ls Returned))"
proof (induction parse ids st ls "Returned" rule: minimax_lines.induct)
  case (4 parse ids st ev ls)
  obtain y1 st1 where t: "on_thinking st ev = (y1, st1)" by (cases "on_thinking st ev")
  obtain y2 st2 where x: "on_text st1 ev = (y2, st2)" by (cases "on_text st1 ev")
  have y: "filter isComplete (y1 @ y2) = []"
    using on_thinking_incomplete [of st ev] on_text_incomplete [of st1 ev] t x by simp
  show ?case
  proof (cases "ev_message_stop ev")
    case True
    have "one_final ((y1 @ y2) @ on_message_stop parse ids (on_input_json (on_tool_use ids st2 ev) ev))"
      using y on_message_stop_one_final by (rule one_final_after)
    then show ?thesis using True t x by (simp add: Let_def)
  next
    case False
    have "one_final ((y1 @ y2)
            @ fst (minimax_lines parse ids (on_input_json (on_tool_use ids st2 ev) ev) ls Returned))"
      using y "4.hyps" [OF t [symmetric] refl x [symmetric] refl refl refl False]
      by (intro one_final_after) simp_all
    then show ?thesis
      using False t x "4.hyps" [OF t [symmetric] refl x [symmetric] refl refl refl False]
      by (simp add: Let_def emit_def)
  qed
qed (simp_all add: one_final_def)

lemma minimax_stream_one_final:
  "snd (minimax_stream parse ids (Response True code (Some (ls, Returned)))) = Returned
   \<and> one_final (fst (minimax_stream parse ids (Response True code (Some (ls, Returned)))))"
  using minimax_lines_one_final [of parse ids mm_init ls] by (simp add: minimax_stream_def)


section \<open>Argument text that does not parse\<close>

lemma tool_calls_append [simp]: "tool_calls (xs @ ys) = tool_calls xs @ tool_calls ys"
  by (simp add: tool_calls_def)

lemma tool_calls_simps [simp]:
  "tool_calls [] = []"
  "tool_calls (text_chunk s # cs) = tool_calls cs"
  "tool_calls (final_chunk # cs) = tool_calls cs"
  "tool_calls (call_chunk c f # cs) = c # tool_calls cs"
  by (simp_all add: tool_calls_def text_chunk_def final_chunk_def call_chunk_def)

lemma tool_calls_map_call_chunk [simp]:
  "tool_calls (map (\<lambda>c. call_chunk c f) tcs) = tcs"
  by (induction tcs) simp_all

lemma deepseek_calls_parsed:
  "tc \<in> set (tool_calls (fst (deepseek_chunks parse cur cs e))) \<Longrightarrow>
   \<exists>rc. parse_arguments parse rc = Some (arguments tc)"
proof (induction cs arbitrary: cur)
  case Nil
  then show ?case by simp
next
  case (Cons c cs)
  then show ?case
    by (auto simp: emit_def Let_def finished_call_def split: option.splits if_splits)
qed

lemma claude_calls_parsed:
  "tc \<in> set (tool_calls (fst (claude_events parse cur cs e))) \<Longrightarrow>
   \<exists>rc. parse_arguments parse rc = Some (arguments tc)"
  by (induction parse cur cs e rule: claude_events.induct)
    (auto simp: emit_def finished_call_def split: option.splits)

lemma ollama_no_calls: "tool_calls (fst (ollama_lines ls e)) = []"
  by (induction ls e rule: ollama_lines.induct)
    (auto simp: emit_def tool_calls_def final_chunk_def)

lemma inline_tool_calls_arguments:
  "tc \<in> set (inline_tool_calls ids k ms) \<Longrightarrow> \<exists>p. arguments tc = inline_arguments p"
  by (induction ids k ms rule: inline_tool_calls.induct) auto

lemma tool_calls_on_message_stop:
  "tool_calls (on_message_stop parse ids st)
     = inline_tool_calls ids (generated st) (inline_calls (fullTextContent st))
       @ (case currentToolCall st of
            None \<Rightarrow> []
          | Some rc \<Rightarrow>
              (case parse_arguments parse rc of
                 None \<Rightarrow> []
               | Some a \<Rightarrow> [finished_call rc a]))"
  by (simp add: on_message_stop_def split: option.splits)

lemma on_thinking_calls [simp]: "tool_calls (fst (on_thinking st ev)) = []"
  by (simp add: on_thinking_def split: option.splits mm_delta.splits)

lemma on_text_calls [simp]: "tool_calls (fst (on_text st ev)) = []"
  by (simp add: on_text_def split: option.splits mm_delta.splits)

lemma minimax_calls_parsed:
  "tc \<in> set (tool_calls (fst (minimax_lines parse ids st ls e))) \<Longrightarrow>
   (\<exists>rc. parse_arguments parse rc = Some (arguments tc)) \<or> (\<exists>p. arguments tc = inline_arguments p)"
proof (induction parse ids st ls e rule: minimax_lines.induct)
  case (4 parse ids st ev ls e)
  obtain y1 st1 where t: "on_thinking st ev = (y1, st1)" by (cases "on_thinking st ev")
  obtain y2 st2 where x: "on_text st1 ev = (y2, st2)" by (cases "on_text st1 ev")
  have y: "tool_calls y1 = []" "tool_calls y2 = []"
    using on_thinking_calls [of st ev] on_text_calls [of st1 ev] t x by simp_all
  define st4 where "st4 = on_input_json (on_tool_use ids st2 ev) ev"
  show ?case
  proof (cases "ev_message_stop ev")
    case True
    then have "tc \<in> set (tool_calls (on_message_stop parse ids st4))"
      using "4.prems" t x y by (simp add: Let_def st4_def)
    then show ?thesis
      using inline_tool_calls_arguments [of tc ids]
      by (auto simp: tool_calls_on_message_stop finished_call_def split: option.splits)
  next
    case False
    then have "tc \<in> set (tool_calls (fst (minimax_lines parse ids st4 ls e)))"
      using "4.prems" t x y by (simp add: Let_def st4_def emit_def)
    then show ?thesis
      using "4.IH" [OF t [symmetric] refl x [symmetric] refl refl refl False]
      by (simp add: st4_def)
  qed
qed simp_all

lemma minimax_lines_stop:
  "minimax_lines parse ids st (Event stop_event # ls) e = (on_message_stop parse ids st, Returned)"
  by (simp add: stop_event_def on_thinking_def on_text_def on_tool_use_def on_input_json_def)

text \<open>
  C1, as stated, fails. A DeepSeek stream that assembles a call with the argument text
  of an opening brace and then reports a finish reason: the generator yields nothing
  and throws the parse error. The same call on a MiniMax stream: it is dropped, and the
  only chunk is the final one.
\<close>

theorem unparsable_arguments_counterexample:
  "deepseek_stream sample_parse
     (Inr ([\<lparr>delta = Some \<lparr>d_content = None,
                              d_tool_calls = Some [\<lparr>td_id = Some (str ''c1''),
                                                    td_name = Some (str ''screenshot''),
                                                    td_arguments = Some (str ''{'')\<rparr>]\<rparr>,
             finish_reason = None\<rparr>,
            \<lparr>delta = Some \<lparr>d_content = None, d_tool_calls = None\<rparr>,
             finish_reason = Some (str ''tool_calls'')\<rparr>], Returned))
     = ([], Threw SyntaxError)
   \<and> minimax_stream sample_parse sample_ids
       (Response True 200
          (Some ([Event \<lparr>ev_delta = None,
                         ev_tool_use = Some (Some (str ''c1''), Some (str ''screenshot'')),
                         ev_message_stop = False\<rparr>,
                  Event \<lparr>ev_delta = Some (Input_json_delta (str ''{'')), ev_tool_use = None,
                         ev_message_stop = False\<rparr>,
                  Event stop_event], Returned)))
     = ([final_chunk], Returned)"
  by (simp add: deepseek_stream_def minimax_stream_def truthy_def or_empty_def emit_def
      parse_arguments_def sample_parse_def str_def mm_init_def stop_event_def
      on_thinking_def on_text_def on_tool_use_def on_input_json_def on_message_stop_def)

text \<open>
  C1, amended. When the argument text of the call being assembled does not parse, the
  DeepSeek generator throws the parse error at the chunk with the finish reason and the
  Claude generator at the message stop, without a tool call; the MiniMax generator
  surfaces the inline calls of the text only, and returns after the final chunk. An empty
  argument text is parsed as the text of the empty object. Every tool call a generator
  surfaces carries what \<^verbatim>\<open>JSON.parse\<close> returned for some argument text or, for MiniMax,
  the mapping made from inline parameters; the Ollama generator surfaces none.
\<close>

theorem unparsable_arguments_throw_or_drop:
  "(parse_arguments parse rc = None \<and> delta c = Some d
      \<and> (case d_tool_calls d of None \<Rightarrow> cur | Some ts \<Rightarrow> ds_tool_deltas cur ts) = Some rc
      \<and> truthy (finish_reason c) \<longrightarrow>
        snd (deepseek_chunks parse cur (c # dcs) e) = Threw SyntaxError
        \<and> tool_calls (fst (deepseek_chunks parse cur (c # dcs) e)) = [])
   \<and> (parse_arguments parse rc = None \<longrightarrow>
        claude_events parse (Some rc) (MessageStop # ces) e = ([], Threw SyntaxError))
   \<and> (parse_arguments parse rc = None \<and> currentToolCall st = Some rc \<longrightarrow>
        snd (minimax_lines parse ids st (Event stop_event # mls) e) = Returned
        \<and> tool_calls (fst (minimax_lines parse ids st (Event stop_event # mls) e))
            = inline_tool_calls ids (generated st) (inline_calls (fullTextContent st))
        \<and> last (fst (minimax_lines parse ids st (Event stop_event # mls) e)) = final_chunk)
   \<and> (rc_arguments rc = [] \<longrightarrow> parse_arguments parse rc = parse (str ''{}''))
   \<and> (\<forall>tc \<in> set (tool_calls (fst (deepseek_stream parse dup))).
         \<exists>rc'. parse_arguments parse rc' = Some (arguments tc))
   \<and> (\<forall>tc \<in> set (tool_calls (fst (claude_stream parse cup))).
         \<exists>rc'. parse_arguments parse rc' = Some (arguments tc))
   \<and> (\<forall>tc \<in> set (tool_calls (fst (minimax_stream parse ids mup))).
         (\<exists>rc'. parse_arguments parse rc' = Some (arguments tc))
         \<or> (\<exists>p. arguments tc = inline_arguments p))
   \<and> tool_calls (fst (ollama_stream oup)) = []"
proof -
  have a: "snd (deepseek_chunks parse cur (c # dcs) e) = Threw SyntaxError
        \<and> tool_calls (fst (deepseek_chunks parse cur (c # dcs) e)) = []"
    if "parse_arguments parse rc = None" and "delta c = Some d"
      and "(case d_tool_calls d of None \<Rightarrow> cur | Some ts \<Rightarrow> ds_tool_deltas cur ts) = Some rc"
      and "truthy (finish_reason c)"
    using that by (simp add: Let_def)
  have b: "claude_events parse (Some rc) (MessageStop # ces) e = ([], Threw SyntaxError)"
    if "parse_arguments parse rc = None"
    using that by simp
  have c: "snd (minimax_lines parse ids st (Event stop_event # mls) e) = Returned
        \<and> tool_calls (fst (minimax_lines parse ids st (Event stop_event # mls) e))
            = inline_tool_calls ids (generated st) (inline_calls (fullTextContent st))
        \<and> last (fst (minimax_lines parse ids st (Event stop_event # mls) e)) = final_chunk"
    if "parse_arguments parse rc = None" and "currentToolCall st = Some rc"
  proof -
    have "last (on_message_stop parse ids st) = final_chunk"
      by (simp add: on_message_stop_def)
    moreover have "tool_calls (on_message_stop parse ids st)
            = inline_tool_calls ids (generated st) (inline_calls (fullTextContent st))"
      using that by (simp add: tool_calls_on_message_stop)
    ultimately show ?thesis
      unfolding minimax_lines_stop by simp
  qed
  have d: "rc_arguments rc = [] \<longrightarrow> parse_arguments parse rc = parse (str ''{}'')"
    by (simp add: parse_arguments_def)
  have e: "\<forall>tc \<in> set (tool_calls (fst (deepseek_stream parse dup))).
         \<exists>rc'. parse_arguments parse rc' = Some (arguments tc)"
    using deepseek_calls_parsed [of _ parse None]
    by (cases dup) (auto simp: deepseek_stream_def)
  have f: "\<forall>tc \<in> set (tool_calls (fst (claude_stream parse cup))).
         \<exists>rc'. parse_arguments parse rc' = Some (arguments tc)"
    using claude_calls_parsed [of _ parse None]
    by (cases cup) (auto simp: claude_stream_def)
  have g: "\<forall>tc \<in> set (tool_calls (fst (minimax_stream parse ids mup))).
         (\<exists>rc'. parse_arguments parse rc' = Some (arguments tc))
         \<or> (\<exists>p. arguments tc = inline_arguments p)"
  proof (cases mup)
    case (FetchFailed x)
    then show ?thesis by (simp add: minimax_stream_def)
  next
    case (Response ok code body)
    show ?thesis
    proof (cases "ok \<and> body \<noteq> None")
      case False
      then have "fst (minimax_stream parse ids mup) = []"
        using Response by (cases body) (auto simp: minimax_stream_def)
      then show ?thesis by simp
    next
      case True
      then obtain ls en where "body = Some (ls, en)" by auto
      then show ?thesis
        using Response True minimax_calls_parsed [of _ parse ids mm_init ls en]
        by (simp add: minimax_stream_def)
    qed
  qed
  have h: "tool_calls (fst (ollama_stream oup)) = []"
    by (cases oup) (auto simp: ollama_stream_def ollama_no_calls split: option.splits)
  from a b c d e f g h show ?thesis by blast
qed

theorem unparsable_arguments_throw_or_drop_witness:
  "claude_events sample_parse
     (Some \<lparr>rc_id = str ''c1'', rc_name = str ''screenshot'', rc_arguments = str ''{''\<rparr>)
     [MessageStop] Returned = ([], Threw SyntaxError)
   \<and> snd (deepseek_chunks sample_parse
        (Some \<lparr>rc_id = str ''c1'', rc_name = str ''screenshot'', rc_arguments = str ''{''\<rparr>)
        [\<lparr>delta = Some \<lparr>d_content = None, d_tool_calls = None\<rparr>,
          finish_reason = Some (str ''tool_calls'')\<rparr>] Returned) = Threw SyntaxError
   \<and> tool_calls (fst (minimax_lines sample_parse sample_ids
        (mm_init\<lparr>currentToolCall :=
            Some \<lparr>rc_id = str ''c1'', rc_name = str ''screenshot'', rc_arguments = str ''{''\<rparr>\<rparr>)
        [Event stop_event] Returned)) = []"
proof -
  let ?rc = "\<lparr>rc_id = str ''c1'', rc_name = str ''screenshot'', rc_arguments = str ''{''\<rparr>"
  let ?d = "\<lparr>d_content = None, d_tool_calls = None\<rparr>"
  let ?c = "\<lparr>delta = Some ?d, finish_reason = Some (str ''tool_calls'')\<rparr>"
  let ?st = "mm_init\<lparr>currentToolCall := Some ?rc\<rparr>"
  let ?ids = sample_ids
  note th = unparsable_arguments_throw_or_drop [of sample_parse ?rc ?c ?d "Some ?rc" "[]"
      Returned "[]" ?st ?ids "[]"]
  have n: "parse_arguments sample_parse ?rc = None"
    by (simp add: parse_arguments_def sample_parse_def str_def)
  have h1: "parse_arguments sample_parse ?rc = None \<and> delta ?c = Some ?d
      \<and> (case d_tool_calls ?d of None \<Rightarrow> Some ?rc | Some ts \<Rightarrow> ds_tool_deltas (Some ?rc) ts) = Some ?rc
      \<and> truthy (finish_reason ?c)"
    using n by (simp add: truthy_def str_def)
  have h3: "parse_arguments sample_parse ?rc = None \<and> currentToolCall ?st = Some ?rc"
    using n by simp
  have i: "inline_tool_calls ?ids (generated ?st) (inline_calls (fullTextContent ?st)) = []"
    by (simp add: mm_init_def)
  have "claude_events sample_parse (Some ?rc) [MessageStop] Returned = ([], Threw SyntaxError)"
    using th n by blast
  moreover have "snd (deepseek_chunks sample_parse (Some ?rc) [?c] Returned) = Threw SyntaxError"
    using th h1 by blast
  moreover have "tool_calls (fst (minimax_lines sample_parse ?ids ?st [Event stop_event] Returned))
      = inline_tool_calls ?ids (generated ?st) (inline_calls (fullTextContent ?st))"
    using th h3 by blast
  ultimately show ?thesis unfolding i by blast
qed

section \<open>Inline and structured calls of one turn\<close>

lemmas pattern_defs = str_def invoke_at_def expect_def starts_with_def tc_open_def tc_close_def
  inv_open_def inv_close_def par_open_def par_close_def skip_ws_def is_space_def tail_match_def
  Let_def param_at_def is_word_def inline_arguments_def or_empty_def assign_def
  set_property_def is_array_index_def is_digit_def decimal_def

lemma inline_screenshot_calls: "inline_calls inline_screenshot = [(str ''screenshot'', None)]"
  by (simp add: inline_screenshot_def pattern_defs)

text \<open>
  C4, as stated, fails in its second half. A turn whose text holds the inline invocation
  of \<^verbatim>\<open>screenshot\<close> without parameters and whose structured block is a
  \<^verbatim>\<open>tool_use\<close> of \<^verbatim>\<open>screenshot\<close> with no argument text: both calls are surfaced,
  with the same name and the same arguments.
\<close>

theorem same_call_twice_counterexample:
  "map ran
     (tool_calls (fst (minimax_stream sample_parse sample_ids
        (Response True 200
           (Some ([Event \<lparr>ev_delta = Some (Text_delta inline_screenshot), ev_tool_use = None,
                          ev_message_stop = False\<rparr>,
                   Event \<lparr>ev_delta = None,
                          ev_tool_use = Some (Some (str ''toolu_1''), Some (str ''screenshot'')),
                          ev_message_stop = False\<rparr>,
                   Event stop_event], Returned))))))
     = [(str ''screenshot'', JObj []), (str ''screenshot'', JObj [])]"
proof -
  have n: "inline_screenshot \<noteq> []"
    by (simp add: inline_screenshot_def str_def)
  show ?thesis
    using n
    by (simp add: minimax_stream_def mm_init_def stop_event_def on_thinking_def on_text_def
        on_tool_use_def on_input_json_def on_message_stop_def emit_def truthy_def or_empty_def
        inline_screenshot_calls parse_arguments_def sample_parse_def finished_call_def
        inline_arguments_def ran_def)
qed

lemma expect_literal: "expect pat (pat @ x) = Some x"
  by (simp add: expect_def starts_with_def)

lemma skip_ws_literal:
  "list_all is_space w \<Longrightarrow> lit \<noteq> [] \<Longrightarrow> \<not> is_space (hd lit) \<Longrightarrow> skip_ws (w @ lit @ x) = lit @ x"
  by (induction w) (auto simp: skip_ws_def neq_Nil_conv)

lemma literal_heads:
  "tc_open \<noteq> []" "hd tc_open = 60" "inv_open \<noteq> []" "hd inv_open = 60"
  "inv_close \<noteq> []" "hd inv_close = 60" "tc_close \<noteq> []" "hd tc_close = 60"
  "par_open \<noteq> []" "hd par_open = 60" "par_close \<noteq> []" "hd par_close = 60" "\<not> is_space 60"
  by (simp_all add: tc_open_def inv_open_def inv_close_def tc_close_def par_open_def
      par_close_def str_def is_space_def)

lemma tail_match_literal:
  assumes "list_all is_space w3" "list_all is_space w4"
  shows "tail_match (w3 @ inv_close @ w4 @ tc_close @ x) = Some x"
proof -
  have "skip_ws (w3 @ inv_close @ (w4 @ tc_close @ x)) = inv_close @ (w4 @ tc_close @ x)"
    using assms(1) by (intro skip_ws_literal) (simp_all add: literal_heads)
  moreover have "skip_ws (w4 @ tc_close @ x) = tc_close @ x"
    using assms(2) by (intro skip_ws_literal) (simp_all add: literal_heads)
  ultimately show ?thesis by (simp add: tail_match_def expect_literal)
qed

lemma starts_with_longer:
  "length pat \<le> length s \<Longrightarrow> starts_with pat (s @ x) = starts_with pat s"
  by (simp add: starts_with_def)

lemma occurrences_end: "pat \<noteq> [] \<Longrightarrow> 1 \<le> occurrences pat (b @ pat)"
proof (induction b)
  case Nil
  then show ?case by (cases pat) (simp_all add: starts_with_def)
next
  case (Cons c b)
  then show ?case by simp
qed

lemma lazy_parameters_literal:
  assumes "tail_match t = Some x"
  shows "occurrences par_close (b @ par_close) = 1 \<Longrightarrow>
         lazy_parameters (b @ par_close @ t) = Some (b, x)"
proof (induction b)
  case Nil
  obtain c cs where p: "par_close @ t = c # cs"
    using literal_heads(11) by (cases "par_close @ t") simp_all
  have "starts_with par_close (par_close @ t)"
    by (simp add: starts_with_def)
  then have a: "starts_with par_close (c # cs)" unfolding p .
  have "drop (length par_close) (par_close @ t) = t" by simp
  then have b: "drop (length par_close) (c # cs) = t" unfolding p .
  have "lazy_parameters (c # cs) = Some ([], x)"
    unfolding lazy_parameters.simps(2) using a b assms by simp
  then show ?case unfolding append_Nil p .
next
  case (Cons c b)
  have "1 \<le> occurrences par_close (b @ par_close)"
    by (rule occurrences_end) (rule literal_heads)
  with Cons.prems have n: "\<not> starts_with par_close (c # b @ par_close)"
    and o: "occurrences par_close (b @ par_close) = 1"
    by (simp_all split: if_splits)
  have "starts_with par_close ((c # b @ par_close) @ t) = starts_with par_close (c # b @ par_close)"
    by (rule starts_with_longer) simp
  then have "\<not> starts_with par_close (c # b @ par_close @ t)" using n by simp
  then show ?case using Cons.IH [OF o] by simp
qed

lemma until_quote:
  "34 \<notin> set nm \<Longrightarrow>
   takeWhile (\<lambda>u. u \<noteq> 34) (nm @ 34 # x) = nm
   \<and> dropWhile (\<lambda>u. u \<noteq> (34::nat)) (nm @ 34 # x) = 34 # x"
  by (induction nm) auto

lemma invoke_at_literal:
  assumes "well_formed iv" and "prose iv = []"
  shows "invoke_at (invocation_text iv @ x) = Some (inv_name iv, inv_parameters iv, x)"
proof -
  let ?t = "space3 iv @ inv_close @ space4 iv @ tc_close @ x"
  let ?g = "case inv_parameters iv of None \<Rightarrow> [] | Some b \<Rightarrow> par_open @ b @ par_close"
  let ?s4 = "space2 iv @ ?g @ ?t"
  let ?s2 = "inv_name iv @ [34, 62] @ ?s4"
  let ?s1 = "space1 iv @ inv_open @ ?s2"
  have w: "inv_name iv \<noteq> []" "34 \<notin> set (inv_name iv)"
    "list_all is_space (space1 iv)" "list_all is_space (space2 iv)"
    "list_all is_space (space3 iv)" "list_all is_space (space4 iv)"
    using assms(1) by (simp_all add: well_formed_def)
  have t: "tail_match ?t = Some x"
    using w(5,6) by (rule tail_match_literal)
  have e: "invocation_text iv @ x = tc_open @ ?s1"
    using assms(2) by (simp add: invocation_text_def)
  have 1: "expect tc_open (tc_open @ ?s1) = Some ?s1" by (rule expect_literal)
  have 2: "skip_ws ?s1 = inv_open @ ?s2"
    using w(3) by (intro skip_ws_literal) (simp_all add: literal_heads)
  have 3: "expect inv_open (inv_open @ ?s2) = Some ?s2" by (rule expect_literal)
  have 4: "takeWhile (\<lambda>u. u \<noteq> 34) ?s2 = inv_name iv"
    "dropWhile (\<lambda>u. u \<noteq> 34) ?s2 = [34, 62] @ ?s4"
    using until_quote [OF w(2), of "62 # ?s4"] by simp_all
  have 5: "expect [34, 62] ([34, 62] @ ?s4) = Some ?s4" by (rule expect_literal)
  have 6: "(case (case expect par_open (skip_ws ?s4) of
                    None \<Rightarrow> None
                  | Some s6 \<Rightarrow> lazy_parameters s6) of
              Some (p, rest) \<Rightarrow> Some (inv_name iv, Some p, rest)
            | None \<Rightarrow>
                (case tail_match (skip_ws ?s4) of
                   None \<Rightarrow> None
                 | Some rest \<Rightarrow> Some (inv_name iv, None, rest)))
           = Some (inv_name iv, inv_parameters iv, x)"
  proof (cases "inv_parameters iv")
    case None
    have "skip_ws ((space2 iv @ space3 iv) @ inv_close @ (space4 iv @ tc_close @ x))
            = inv_close @ (space4 iv @ tc_close @ x)"
      using w(4,5) by (intro skip_ws_literal) (simp_all add: literal_heads)
    then have s: "skip_ws ?s4 = inv_close @ space4 iv @ tc_close @ x"
      using None by simp
    have n: "expect par_open (inv_close @ space4 iv @ tc_close @ x) = None"
      by (simp add: expect_def starts_with_def par_open_def inv_close_def str_def)
    have "tail_match ([] @ inv_close @ space4 iv @ tc_close @ x) = Some x"
      using w(6) by (intro tail_match_literal) simp_all
    then show ?thesis using None s n by simp
  next
    case (Some b)
    have "skip_ws (space2 iv @ par_open @ (b @ par_close @ ?t)) = par_open @ (b @ par_close @ ?t)"
      using w(4) by (intro skip_ws_literal) (simp_all add: literal_heads)
    then have s: "skip_ws ?s4 = par_open @ (b @ par_close @ ?t)"
      using Some by simp
    have "occurrences par_close (b @ par_close) = 1"
      using assms(1) Some by (simp add: well_formed_def)
    then have "lazy_parameters (b @ par_close @ ?t) = Some (b, x)"
      by (rule lazy_parameters_literal [OF t])
    then show ?thesis using Some s by (simp add: expect_literal)
  qed
  show ?thesis
    unfolding e invoke_at_def 1 option.case 2 3 Let_def 4 5 using w(1) 6 by simp
qed

lemma invoke_at_other: "c \<noteq> 60 \<Longrightarrow> invoke_at (c # s) = None"
  by (simp add: invoke_at_def expect_def starts_with_def tc_open_def str_def)

lemma inline_calls_prose: "60 \<notin> set j \<Longrightarrow> inline_calls (j @ x) = inline_calls x"
  by (induction j) (simp_all add: invoke_at_other)

lemma inline_calls_invocation:
  assumes "well_formed iv"
  shows "inline_calls (invocation_text iv @ x) = (inv_name iv, inv_parameters iv) # inline_calls x"
proof -
  define iv' where "iv' = iv\<lparr>prose := []\<rparr>"
  have w: "well_formed iv'" "prose iv' = []" "inv_name iv' = inv_name iv"
    "inv_parameters iv' = inv_parameters iv"
    using assms by (simp_all add: iv'_def well_formed_def)
  have e: "invocation_text iv @ x = prose iv @ (invocation_text iv' @ x)"
    by (simp add: invocation_text_def iv'_def)
  obtain c cs where s: "invocation_text iv' @ x = c # cs"
    using literal_heads(1) by (cases "invocation_text iv' @ x") (simp_all add: invocation_text_def)
  have "inline_calls (invocation_text iv @ x) = inline_calls (invocation_text iv' @ x)"
    unfolding e using assms by (intro inline_calls_prose) (simp add: well_formed_def)
  also have "\<dots> = (inv_name iv, inv_parameters iv) # inline_calls x"
    using invoke_at_literal [OF w(1,2), of x] w(3,4) unfolding s by simp
  finally show ?thesis .
qed

lemma inline_calls_invocations:
  "list_all well_formed ivs \<Longrightarrow> 60 \<notin> set j \<Longrightarrow>
   inline_calls (concat (map invocation_text ivs) @ j)
     = map (\<lambda>iv. (inv_name iv, inv_parameters iv)) ivs"
proof (induction ivs)
  case Nil
  then show ?case using inline_calls_prose [of j "[]"] by simp
next
  case (Cons iv ivs)
  then show ?case by (simp add: inline_calls_invocation)
qed

lemma inline_tool_calls_enumerate:
  "inline_tool_calls ids k (map (\<lambda>iv. (inv_name iv, inv_parameters iv)) ivs)
     = map (\<lambda>(m, iv). \<lparr>call_id = ids m, name = inv_name iv,
                        arguments = inline_arguments (inv_parameters iv)\<rparr>) (enumerate k ivs)"
  by (induction ivs arbitrary: k) simp_all

lemma text_events:
  "minimax_lines parse ids
     \<lparr>hasYieldThinking = False, currentToolCall = c, fullTextContent = f, generated = g\<rparr>
     (map (\<lambda>t. Event (text_event t)) ts @ ls) e
   = emit (map text_chunk (filter (\<lambda>t. t \<noteq> []) ts))
       (minimax_lines parse ids
          \<lparr>hasYieldThinking = False, currentToolCall = c, fullTextContent = f @ concat ts,
           generated = g\<rparr> ls e)"
proof (induction ts arbitrary: f)
  case Nil
  show ?case by (simp add: emit_def)
next
  case (Cons t ts)
  show ?case
    by (simp add: Cons.IH text_event_def on_thinking_def on_text_def on_tool_use_def
        on_input_json_def emit_def del: minimax_lines.simps(4))
      (simp add: text_event_def on_thinking_def on_text_def on_tool_use_def
        on_input_json_def emit_def Cons.IH [unfolded text_event_def])
qed

lemma json_events:
  "minimax_lines parse ids
     \<lparr>hasYieldThinking = False,
      currentToolCall = Some \<lparr>rc_id = i, rc_name = n, rc_arguments = a\<rparr>,
      fullTextContent = f, generated = g\<rparr>
     (map (\<lambda>j. Event (json_event j)) js @ ls) e
   = minimax_lines parse ids
       \<lparr>hasYieldThinking = False,
        currentToolCall = Some \<lparr>rc_id = i, rc_name = n, rc_arguments = a @ concat js\<rparr>,
        fullTextContent = f, generated = g\<rparr> ls e"
proof (induction js arbitrary: a)
  case Nil
  show ?case by simp
next
  case (Cons j js)
  show ?case
    by (simp add: json_event_def on_thinking_def on_text_def on_tool_use_def
        on_input_json_def emit_def Cons.IH [unfolded json_event_def])
qed

lemma tool_calls_text_chunks [simp]: "tool_calls (map text_chunk ts) = []"
  by (induction ts) (simp_all add: tool_calls_def text_chunk_def)

lemma hybrid_turn_calls:
  "tool_calls (fst (minimax_lines parse ids mm_init (hybrid_turn ts i n js @ ls) e))
     = inline_tool_calls ids (if truthy i then 0 else 1) (inline_calls (concat ts))
       @ (case parse (if concat js = [] then str ''{}'' else concat js) of
            None \<Rightarrow> []
          | Some a \<Rightarrow> [\<lparr>call_id = (if truthy i then or_empty i else ids 0), name = or_empty n,
                        arguments = a\<rparr>])
   \<and> snd (minimax_lines parse ids mm_init (hybrid_turn ts i n js @ ls) e) = Returned"
proof -
  define rest where "rest = map (\<lambda>j. Event (json_event j)) js @ (Event stop_event # ls)"
  define g :: nat where "g = (if truthy i then 0 else 1)"
  define ci where "ci = (if truthy i then or_empty i else ids 0)"
  have h: "hybrid_turn ts i n js @ ls
      = map (\<lambda>t. Event (text_event t)) ts @ (Event (tool_use_event i n) # rest)"
    by (simp add: hybrid_turn_def rest_def)
  have u: "minimax_lines parse ids
        \<lparr>hasYieldThinking = False, currentToolCall = None, fullTextContent = [] @ concat ts,
         generated = 0\<rparr> (Event (tool_use_event i n) # rest) e
      = minimax_lines parse ids
        \<lparr>hasYieldThinking = False,
         currentToolCall = Some \<lparr>rc_id = ci, rc_name = or_empty n, rc_arguments = []\<rparr>,
         fullTextContent = concat ts, generated = g\<rparr> rest e"
    by (simp add: tool_use_event_def on_thinking_def on_text_def on_tool_use_def
        on_input_json_def emit_def g_def ci_def)
  have j: "minimax_lines parse ids
        \<lparr>hasYieldThinking = False,
         currentToolCall = Some \<lparr>rc_id = ci, rc_name = or_empty n, rc_arguments = []\<rparr>,
         fullTextContent = concat ts, generated = g\<rparr> rest e
      = (on_message_stop parse ids
        \<lparr>hasYieldThinking = False,
         currentToolCall = Some \<lparr>rc_id = ci, rc_name = or_empty n, rc_arguments = [] @ concat js\<rparr>,
         fullTextContent = concat ts, generated = g\<rparr>, Returned)"
    unfolding rest_def json_events minimax_lines_stop ..
  have "minimax_lines parse ids mm_init (hybrid_turn ts i n js @ ls) e
      = emit (map text_chunk (filter (\<lambda>t. t \<noteq> []) ts))
         (on_message_stop parse ids
        \<lparr>hasYieldThinking = False,
         currentToolCall = Some \<lparr>rc_id = ci, rc_name = or_empty n, rc_arguments = [] @ concat js\<rparr>,
         fullTextContent = concat ts, generated = g\<rparr>, Returned)"
    unfolding h mm_init_def text_events u j ..
  then show ?thesis
    by (simp add: emit_def tool_calls_on_message_stop parse_arguments_def finished_call_def
        g_def ci_def split: option.splits)
qed

text \<open>
  C4, amended. A turn of the MiniMax adapter that streams its text, then one tool-use
  block with its input, then the message stop: when the accumulated text is a sequence
  of well-formed inline invocations, each after prose without \<^verbatim>\<open><\<close>, with such
  prose at the end, and the input of the block parses, the generator returns and the tool
  calls it surfaces are one for every inline invocation, in the order of the text, each
  with a generated id, its name and the arguments built from its parameters, and after
  them the call of the block. Nothing is compared and nothing is removed: with one inline
  invocation there are two calls, whether or not their names and arguments are the same.
\<close>

theorem inline_and_structured_calls_both_surface:
  assumes "list_all well_formed ivs" and "60 \<notin> set j"
    and "concat ts = concat (map invocation_text ivs) @ j"
    and "parse (if concat js = [] then str ''{}'' else concat js) = Some a"
  shows "snd (minimax_stream parse ids
                (Response True code (Some (hybrid_turn ts i n js @ ls, e)))) = Returned
       \<and> tool_calls (fst (minimax_stream parse ids
                (Response True code (Some (hybrid_turn ts i n js @ ls, e)))))
           = map (\<lambda>(m, iv). \<lparr>call_id = ids m, name = inv_name iv,
                              arguments = inline_arguments (inv_parameters iv)\<rparr>)
               (enumerate (if truthy i then 0 else 1) ivs)
             @ [\<lparr>call_id = (if truthy i then or_empty i else ids 0), name = or_empty n,
                 arguments = a\<rparr>]
       \<and> length (tool_calls (fst (minimax_stream parse ids
                (Response True code (Some (hybrid_turn ts i n js @ ls, e)))))) = length ivs + 1
       \<and> (ivs = [iv] \<longrightarrow>
            map ran (tool_calls (fst (minimax_stream parse ids
                (Response True code (Some (hybrid_turn ts i n js @ ls, e))))))
              = [(inv_name iv, inline_arguments (inv_parameters iv)), (or_empty n, a)])"
proof -
  let ?g = "minimax_stream parse ids (Response True code (Some (hybrid_turn ts i n js @ ls, e)))"
  have m: "?g = minimax_lines parse ids mm_init (hybrid_turn ts i n js @ ls) e"
    by (simp add: minimax_stream_def)
  have c: "inline_calls (concat ts) = map (\<lambda>iv. (inv_name iv, inv_parameters iv)) ivs"
    unfolding assms(3) using assms(1,2) by (rule inline_calls_invocations)
  note h = hybrid_turn_calls [of parse ids ts i n js ls e, folded m]
  have 1: "snd ?g = Returned" using h by simp
  have 2: "tool_calls (fst ?g)
           = map (\<lambda>(m, iv). \<lparr>call_id = ids m, name = inv_name iv,
                              arguments = inline_arguments (inv_parameters iv)\<rparr>)
               (enumerate (if truthy i then 0 else 1) ivs)
             @ [\<lparr>call_id = (if truthy i then or_empty i else ids 0), name = or_empty n,
                 arguments = a\<rparr>]"
    using h assms(4) by (simp add: c inline_tool_calls_enumerate)
  have 3: "length (tool_calls (fst ?g)) = length ivs + 1"
    unfolding 2 by simp
  have 4: "ivs = [iv] \<longrightarrow>
            map ran (tool_calls (fst ?g))
              = [(inv_name iv, inline_arguments (inv_parameters iv)), (or_empty n, a)]"
    unfolding 2 by (simp add: ran_def)
  show ?thesis using 1 2 3 4 by blast
qed

theorem inline_and_structured_calls_both_surface_witness:
  "tool_calls (fst (minimax_stream sample_parse sample_ids
      (Response True 200
         (Some (hybrid_turn two_invocations (Some (str ''toolu_1'')) (Some (str ''screenshot''))
                  [str ''{'', str ''}''], Returned)))))
     = [\<lparr>call_id = [35], name = str ''read_file'',
         arguments = JObj [(str ''1'', JStr (str ''y'')), (str ''2'', JStr (str ''x'')),
                           (str ''10'', JStr (str ''z'')), (str ''path'', JStr (str ''a.txt''))]\<rparr>,
        \<lparr>call_id = [35, 35], name = str ''screenshot'', arguments = JObj []\<rparr>,
        \<lparr>call_id = str ''toolu_1'', name = str ''screenshot'', arguments = JObj []\<rparr>]
   \<and> map ran (tool_calls (fst (minimax_stream sample_parse sample_ids
      (Response True 200
         (Some (hybrid_turn [inline_screenshot] (Some (str ''toolu_1'')) (Some (str ''get_time''))
                  [], Returned))))))
     = [(str ''screenshot'', JObj []), (str ''get_time'', JObj [])]"
proof -
  let ?p = "str ''<path>a.txt</path><2>x</2><10>z</10><1>y</1>''"
  let ?iv1 = "\<lparr>prose = str ''Reading. '', inv_name = str ''read_file'',
               inv_parameters = Some ?p,
               space1 = [10], space2 = [10], space3 = [10], space4 = [10]\<rparr>"
  let ?iv2 = "\<lparr>prose = str '' Then '', inv_name = str ''screenshot'', inv_parameters = None,
               space1 = [], space2 = [], space3 = [], space4 = []\<rparr>"
  have o: "occurrences par_close (?p @ par_close) = 1"
    by (simp add: par_close_def str_def starts_with_def)
  have w: "list_all well_formed [?iv1, ?iv2]"
    using o by (simp add: well_formed_def is_space_def) (simp add: str_def)
  have j: "60 \<notin> set (str '' ok'')" by (simp add: str_def)
  have t: "concat two_invocations = concat (map invocation_text [?iv1, ?iv2]) @ str '' ok''"
    by (simp add: two_invocations_def invocation_text_def tc_open_def tc_close_def inv_open_def
        inv_close_def par_open_def par_close_def str_def)
  have q: "sample_parse (if concat [str ''{'', str ''}''] = [] then str ''{}''
                         else concat [str ''{'', str ''}'']) = Some (JObj [])"
    by (simp add: sample_parse_def str_def)
  have a: "inline_arguments (Some ?p)
      = JObj [(str ''1'', JStr (str ''y'')), (str ''2'', JStr (str ''x'')),
              (str ''10'', JStr (str ''z'')), (str ''path'', JStr (str ''a.txt''))]"
    by (simp add: pattern_defs)
  have b: "inline_arguments None = JObj []"
    by (simp add: inline_arguments_def or_empty_def)
  from inline_and_structured_calls_both_surface
      [where parse = sample_parse and js = "[str ''{'', str ''}'']" and a = "JObj []"
         and ids = sample_ids and code = 200 and i = "Some (str ''toolu_1'')"
         and n = "Some (str ''screenshot'')" and ls = "[]" and e = Returned,
       OF w j t q, THEN conjunct2, THEN conjunct1]
  have 1: "tool_calls (fst (minimax_stream sample_parse sample_ids
      (Response True 200
         (Some (hybrid_turn two_invocations (Some (str ''toolu_1'')) (Some (str ''screenshot''))
                  [str ''{'', str ''}''], Returned)))))
     = [\<lparr>call_id = [35], name = str ''read_file'',
         arguments = JObj [(str ''1'', JStr (str ''y'')), (str ''2'', JStr (str ''x'')),
                           (str ''10'', JStr (str ''z'')), (str ''path'', JStr (str ''a.txt''))]\<rparr>,
        \<lparr>call_id = [35, 35], name = str ''screenshot'', arguments = JObj []\<rparr>,
        \<lparr>call_id = str ''toolu_1'', name = str ''screenshot'', arguments = JObj []\<rparr>]"
    by (simp add: a b truthy_def or_empty_def sample_ids_def enumerate_simps)
      (simp add: str_def)
  let ?iv = "\<lparr>prose = [], inv_name = str ''screenshot'', inv_parameters = None,
              space1 = [], space2 = [], space3 = [], space4 = []\<rparr>"
  have w': "list_all well_formed [?iv]"
    by (simp add: well_formed_def str_def)
  have j': "60 \<notin> set []" by simp
  have t': "concat [inline_screenshot] = concat (map invocation_text [?iv]) @ []"
    by (simp add: inline_screenshot_def invocation_text_def tc_open_def tc_close_def inv_open_def
        inv_close_def str_def)
  have q': "sample_parse (if concat [] = [] then str ''{}'' else concat []) = Some (JObj [])"
    by (simp add: sample_parse_def)
  from inline_and_structured_calls_both_surface
      [where parse = sample_parse and js = "[]" and a = "JObj []"
         and ids = sample_ids and code = 200 and i = "Some (str ''toolu_1'')"
         and n = "Some (str ''get_time'')" and ls = "[]" and e = Returned and iv = ?iv,
       OF w' j' t' q', THEN conjunct2, THEN conjunct2, THEN conjunct2]
  have 2: "map ran (tool_calls (fst (minimax_stream sample_parse sample_ids
      (Response True 200
         (Some (hybrid_turn [inline_screenshot] (Some (str ''toolu_1'')) (Some (str ''get_time''))
                  [], Returned))))))
     = [(str ''screenshot'', JObj []), (str ''get_time'', JObj [])]"
    by (simp add: b or_empty_def)
  show ?thesis using 1 2 by (rule conjI)
qed

section \<open>Thinking sentinels\<close>

text \<open>
  C5. A thinking delta followed by the DONE line, or by the end of the body: the text sent
  has one opening sentinel and no closing one. Followed by a message stop, it has one of
  each.
\<close>

theorem thinking_left_open:
  "minimax_stream sample_parse sample_ids
     (Response True 200 (Some ([Event (thinking_event (str ''hm'')), DoneMarker], Returned)))
     = ([text_chunk open_sentinel, text_chunk (str ''hm''), final_chunk], Returned)
   \<and> minimax_stream sample_parse sample_ids
     (Response True 200 (Some ([Event (thinking_event (str ''hm''))], Returned)))
     = ([text_chunk open_sentinel, text_chunk (str ''hm''), final_chunk], Returned)
   \<and> occurrences open_sentinel
        (contents [text_chunk open_sentinel, text_chunk (str ''hm''), final_chunk]) = 1
   \<and> occurrences close_sentinel
        (contents [text_chunk open_sentinel, text_chunk (str ''hm''), final_chunk]) = 0
   \<and> minimax_stream sample_parse sample_ids
     (Response True 200 (Some ([Event (thinking_event (str ''hm'')), Event stop_event], Returned)))
     = ([text_chunk open_sentinel, text_chunk (str ''hm''), text_chunk close_sentinel,
         final_chunk], Returned)"
  by (simp add: minimax_stream_def mm_init_def thinking_event_def stop_event_def on_thinking_def
      on_text_def on_tool_use_def on_input_json_def on_message_stop_def emit_def str_def
      contents_def text_chunk_def final_chunk_def truthy_def or_empty_def
      open_sentinel_def close_sentinel_def starts_with_def)

end
